theory Spec2Isabelle
  imports Main "HOL-Library.Word"
begin

section \<open>Data model\<close>

text \<open>
  The connection handler \<open>CConnectionHandlerInt\<close> of libbtcnet, embedded as functions on
  an explicit handler state. Machine integers keep their width: \<open>ConnID\<close> is
  \<open>unsigned int\<close> (\<open>typedef unsigned int ConnID\<close>), the three connection counters are
  C++ \<open>int\<close>, and \<open>size_t\<close> is 64 bits wide. Signed arithmetic wraps (two's
  complement) and is read through \<open>sint\<close>.

  All operations run on the reactor thread, one after the other: \<open>IsEventThread()\<close>
  holds, the optional locks do nothing, and a callback into the embedder returns
  before the handler continues, without calling back into the handler.
\<close>

type_synonym ConnID = "32 word"
type_synonym cint = "32 word"
type_synonym size_t = "64 word"
type_synonym sockaddr = string

datatype ResolveMode = RESOLVE | NO_RESOLVE | RESOLVE_ONLY

text \<open>
  Modelled from the spec: the class \<open>CConnection\<close> (libbtcnet/connection.h) is not
  among the sources. It is the Destination descriptor: host and port, the DNS policy
  \<open>doResolve\<close>, the retry count \<open>nRetries\<close>, an optional proxy, and, for a resolved
  destination, a concrete socket address. The observers \<open>IsSet()\<close>, \<open>IsDNS()\<close> and
  \<open>GetProxy().IsSet()\<close> that the handler calls are fields.
\<close>

record CConnection =
  GetHost :: string
  GetPort :: "16 word"
  IsSet :: bool
  IsDNS :: bool
  ProxyIsSet :: bool
  doResolve :: ResolveMode
  nRetries :: cint
  resolved_addr :: "sockaddr option"

text \<open>
  Modelled from the spec: the constructor
  \<open>CConnection(options, netconfig, addr, addrlen)\<close> that builds a resolved destination
  is not among the sources; a resolved destination is the requested one augmented with
  the concrete socket address.
\<close>

definition resolved_connection :: "CConnection \<Rightarrow> sockaddr \<Rightarrow> CConnection" where
  "resolved_connection c a = c\<lparr>resolved_addr := Some a\<rparr>"

datatype variant = Direct | DNS | Proxy | Incoming

text \<open>
  A connection object (\<open>ConnectionBase\<close> and its subclasses). \<open>m_resolved\<close> and
  \<open>m_iter\<close> are the address list and cursor of \<open>CDNSConnection\<close>; the cursor is an
  index, and \<open>m_iter = length m_resolved\<close> is \<open>m_resolved.end()\<close>. \<open>m_bev\<close> and
  \<open>m_request\<close> tell whether a \<open>CDNSConnection\<close> holds a buffer event (a connect in
  flight) and a lookup request; the handles of the other variants, whose sources are
  missing, are not tracked. \<open>m_addr\<close> is the peer address that a \<open>CIncomingConn\<close> is
  constructed with. The object's private \<open>m_id\<close> mirrors the key under which the handler
  stores it and is not duplicated.
\<close>

record ConnectionBase =
  kind :: variant
  m_connection :: CConnection
  m_retries :: cint
  m_resolved :: "sockaddr list"
  m_iter :: nat
  m_bev :: bool
  m_request :: bool
  m_addr :: sockaddr

text \<open>
  \<open>CDNSConnection::CDNSConnection\<close> initialises \<open>m_retries\<close> from
  \<open>GetOptions().nRetries\<close>, with an empty address list and no handle. Modelled from the spec: the
  constructors of \<open>CDirectConnection\<close>, \<open>CProxyConn\<close> and \<open>CIncomingConn\<close> are not
  among the sources (directconn.h declares the same \<open>m_retries\<close> member); they are
  taken to initialise the object the same way.
\<close>

definition new_connection :: "variant \<Rightarrow> CConnection \<Rightarrow> ConnectionBase" where
  "new_connection k conn =
     \<lparr>kind = k, m_connection = conn, m_retries = nRetries conn, m_resolved = [], m_iter = 0,
      m_bev = False, m_request = False, m_addr = []\<rparr>"

text \<open>
  \<open>CDNSConnection::IsOutgoing\<close> returns true. Modelled from the spec: the other
  \<open>IsOutgoing\<close> overrides are not among the sources; of the variants only Incoming is
  not outgoing.
\<close>

definition IsOutgoing :: "ConnectionBase \<Rightarrow> bool" where
  "IsOutgoing c = (kind c \<noteq> Incoming)"

definition GetBaseConnection :: "ConnectionBase \<Rightarrow> CConnection" where
  "GetBaseConnection c = m_connection c"

subsection \<open>The maps\<close>

text \<open>
  \<open>std::map<ConnID, ...>\<close> as an association list kept in key order (the order in which
  the shutdown loops visit it). \<open>emplace_hint\<close> inserts only when the key is absent and
  otherwise leaves the existing element in place; the iterator it returns designates
  the element stored under the key in either case.
\<close>

type_synonym 'v cmap = "(ConnID \<times> 'v) list"

definition map_find :: "ConnID \<Rightarrow> 'v cmap \<Rightarrow> 'v option" where
  "map_find k m = map_of m k"

definition map_erase :: "ConnID \<Rightarrow> 'v cmap \<Rightarrow> 'v cmap" where
  "map_erase k m = filter (\<lambda>p. fst p \<noteq> k) m"

fun insert_sorted :: "ConnID \<Rightarrow> 'v \<Rightarrow> 'v cmap \<Rightarrow> 'v cmap" where
  "insert_sorted k v [] = [(k, v)]"
| "insert_sorted k v (p # m) =
     (if k < fst p then (k, v) # p # m else p # insert_sorted k v m)"

definition map_emplace :: "ConnID \<Rightarrow> 'v \<Rightarrow> 'v cmap \<Rightarrow> 'v cmap" where
  "map_emplace k v m = (if map_find k m = None then insert_sorted k v m else m)"

text \<open>The object stored under a key, changed in place.\<close>

definition map_assign :: "ConnID \<Rightarrow> 'v \<Rightarrow> 'v cmap \<Rightarrow> 'v cmap" where
  "map_assign k v m = map (\<lambda>p. if fst p = k then (k, v) else p) m"

definition count_outgoing :: "ConnectionBase cmap \<Rightarrow> nat" where
  "count_outgoing m = length (filter (\<lambda>p. IsOutgoing (snd p)) m)"

definition count_incoming :: "ConnectionBase cmap \<Rightarrow> nat" where
  "count_incoming m = length (filter (\<lambda>p. \<not> IsOutgoing (snd p)) m)"

subsection \<open>Callbacks, calls and the handler state\<close>

datatype ConnectionFailureType = CONNECT | RESOLVE_FAILURE | PROXY_FAILURE

text \<open>
  The embedder's callbacks (\<open>m_interface.On...\<close>), each with the arguments the handler
  passes.
\<close>

datatype callback =
    CB_OnStartup
  | CB_OnShutdown
  | CB_OnNeedOutgoingConnections size_t
  | CB_OnDnsResponse CConnection "CConnection list"
  | CB_OnDnsFailure CConnection bool
  | CB_OnProxyFailure CConnection bool
  | CB_OnConnectionFailure CConnection CConnection bool
  | CB_OnBindFailure CConnection
  | CB_OnIncomingConnection ConnID CConnection CConnection
  | CB_OnOutgoingConnection ConnID CConnection CConnection
  | CB_OnReadyForFirstSend ConnID
  | CB_OnDisconnected ConnID bool
  | CB_OnReceiveMessages ConnID "8 word list list" size_t
  | CB_OnWriteBufferFull ConnID size_t
  | CB_OnWriteBufferReady ConnID size_t

text \<open>
  Methods the handler invokes on the object stored under an id; each call is recorded
  in the history. Their bodies (connectionbase.cpp, listener.cpp, resolveonly.cpp) start
  asynchronous work and are not interpreted, except for \<open>Connect\<close>, whose effect on the
  handler is given below.
\<close>

datatype RateLimitGroup = incoming_rate_limit | outgoing_rate_limit

record CRateLimit =
  nMaxReadRate :: size_t
  nMaxBurstRead :: size_t
  nMaxWriteRate :: size_t
  nMaxBurstWrite :: size_t

datatype method_call =
    Call_Connect
  | Call_Retry ConnID
  | Call_Resolve
  | Call_RetryResolve
  | Call_Enable
  | Call_Disconnect
  | Call_DisconnectWhenFinished
  | Call_PauseRecv
  | Call_UnpauseRecv
  | Call_Write "8 word list"
  | Call_SetRateLimit CRateLimit
  | Call_SetRateLimitGroup RateLimitGroup

text \<open>What the embedder can see of the handler when a callback runs.\<close>

record observation =
  ob_connected :: "ConnectionBase cmap"
  ob_connecting :: "ConnectionBase cmap"
  ob_binds :: "CConnection cmap"
  ob_dns_resolves :: "CConnection cmap"
  ob_outgoing_conn_count :: cint
  ob_incoming_conn_count :: cint
  ob_shutdown :: bool

datatype entry =
    Callback callback observation
  | Call ConnID method_call
  | Allocated ConnID
  | RequestActivated
  | ShutdownActivated

text \<open>
  The members of \<open>CConnectionHandlerInt\<close>. The four libevent handles that \<open>Start\<close>
  asserts on are booleans (allocated or not). \<open>history\<close> is a history variable: the
  callbacks delivered, the methods invoked on connection objects and the ids allocated,
  in order. The declaration of \<open>m_connection_index\<close> is not among the sources; every
  value read from it is stored in a \<open>ConnID\<close>, so it is given that type.
\<close>

record handler =
  m_connection_index :: ConnID
  m_outgoing_conn_count :: cint
  m_incoming_conn_count :: cint
  m_outgoing_conn_limit :: cint
  m_shutdown :: bool
  m_connected :: "ConnectionBase cmap"
  m_connecting :: "ConnectionBase cmap"
  m_binds :: "CConnection cmap"
  m_dns_resolves :: "CConnection cmap"
  m_event_base :: bool
  m_dns_base :: bool
  m_request_event :: bool
  m_shutdown_event :: bool
  history :: "entry list"

datatype error = AssertionFailed

text \<open>
  What the environment answers while one operation of the handler runs: whether
  \<open>BareCreate\<close> returns a buffer event, and what the embedder's
  \<open>OnIncomingConnection\<close> returns.
\<close>

record replies =
  bev_created :: bool
  incoming_accepted :: bool

definition observe :: "handler \<Rightarrow> observation" where
  "observe s =
     \<lparr>ob_connected = m_connected s, ob_connecting = m_connecting s,
      ob_binds = m_binds s, ob_dns_resolves = m_dns_resolves s,
      ob_outgoing_conn_count = m_outgoing_conn_count s,
      ob_incoming_conn_count = m_incoming_conn_count s,
      ob_shutdown = m_shutdown s\<rparr>"

definition emit :: "callback \<Rightarrow> handler \<Rightarrow> handler" where
  "emit cb s = s\<lparr>history := history s @ [Callback cb (observe s)]\<rparr>"

definition invoke :: "ConnID \<Rightarrow> method_call \<Rightarrow> handler \<Rightarrow> handler" where
  "invoke k c s = s\<lparr>history := history s @ [Call k c]\<rparr>"

text \<open>\<open>ConnID id = m_connection_index++\<close>.\<close>

definition next_id :: "handler \<Rightarrow> ConnID \<times> handler" where
  "next_id s =
     (m_connection_index s,
      s\<lparr>m_connection_index := m_connection_index s + 1,
        history := history s @ [Allocated (m_connection_index s)]\<rparr>)"

text \<open>
  \<open>m_request_event.active()\<close>, which makes the reactor run a refill cycle, and its
  guarded form \<open>if (m_request_event) m_request_event.active()\<close>.
\<close>

definition activate_request :: "handler \<Rightarrow> handler" where
  "activate_request s = s\<lparr>history := history s @ [RequestActivated]\<rparr>"

definition request_active :: "handler \<Rightarrow> handler" where
  "request_active s = (if m_request_event s then activate_request s else s)"

text \<open>The state the constructor leaves.\<close>

definition CConnectionHandlerInt :: handler where
  "CConnectionHandlerInt =
     \<lparr>m_connection_index = 0, m_outgoing_conn_count = 0, m_incoming_conn_count = 0,
      m_outgoing_conn_limit = 0, m_shutdown = False, m_connected = [], m_connecting = [],
      m_binds = [], m_dns_resolves = [], m_event_base = False, m_dns_base = False,
      m_request_event = False, m_shutdown_event = False, history = []\<rparr>"

section \<open>The DNS connection\<close>

text \<open>
  \<open>CDNSConnection\<close> (dnsconn.cpp), as functions on the object. Each returns the object
  as it leaves it and what it did towards its base class: started a lookup, started a
  connect to an address, or reported a failure or a success upwards with the arguments
  shown. A failed \<open>assert\<close> is an error.
\<close>

datatype dns_outcome =
    StartedResolve
  | StartedConnect sockaddr
  | ReportFailure ConnectionFailureType cint CConnection bool
  | ReportConnected CConnection

definition BEV_EVENT_ERROR :: cint where
  "BEV_EVENT_ERROR = 0x20"

definition at_end :: "ConnectionBase \<Rightarrow> bool" where
  "at_end c = (m_iter c = length (m_resolved c))"

definition DoResolve :: "ConnectionBase \<Rightarrow> error + ConnectionBase \<times> dns_outcome" where
  "DoResolve c =
     (if m_bev c \<or> m_request c \<or> m_resolved c \<noteq> [] \<or> \<not> at_end c then Inl AssertionFailed
      else Inr (c\<lparr>m_request := True\<rparr>, StartedResolve))"

text \<open>
  \<open>OnConnectionFailure(CONNECT, event, std::move(resolved),
     ++m_iter != m_resolved.end() || m_retries != 0)\<close>.
\<close>

definition ConnectionFailure :: "cint \<Rightarrow> ConnectionBase \<Rightarrow> error + ConnectionBase \<times> dns_outcome" where
  "ConnectionFailure event c =
     (if m_bev c \<or> at_end c \<or> m_resolved c = [] then Inl AssertionFailed
      else
        (let resolved = resolved_connection (m_connection c) (m_resolved c ! m_iter c);
             c' = c\<lparr>m_iter := m_iter c + 1\<rparr>
         in Inr (c', ReportFailure CONNECT event resolved (\<not> at_end c' \<or> m_retries c' \<noteq> 0))))"

text \<open>\<open>created\<close> tells whether \<open>BareCreate\<close> returned a buffer event.\<close>

definition ConnectResolved :: "bool \<Rightarrow> ConnectionBase \<Rightarrow> error + ConnectionBase \<times> dns_outcome" where
  "ConnectResolved created c =
     (if m_bev c \<or> at_end c \<or> m_resolved c = [] then Inl AssertionFailed
      else if \<not> created then ConnectionFailure BEV_EVENT_ERROR c
      else Inr (c\<lparr>m_bev := True\<rparr>, StartedConnect (m_resolved c ! m_iter c)))"

definition Connect :: "bool \<Rightarrow> ConnectionBase \<Rightarrow> error + ConnectionBase \<times> dns_outcome" where
  "Connect created c =
     (if m_bev c \<or> m_request c then Inl AssertionFailed
      else if at_end c then DoResolve c
      else ConnectResolved created c)"

text \<open>
  \<open>OnConnectionFailure(RESOLVE, error, m_connection,
     m_retries > 0 ? m_retries-- : m_retries != 0)\<close>: in the first branch the flag is the
  value of \<open>m_retries\<close> before the decrement, converted to \<open>bool\<close>.
\<close>

definition OnResolveFailure_dns :: "cint \<Rightarrow> ConnectionBase \<Rightarrow> error + ConnectionBase \<times> dns_outcome" where
  "OnResolveFailure_dns err c0 =
     (if m_bev c0 \<or> m_resolved c0 \<noteq> [] \<or> \<not> at_end c0 then Inl AssertionFailed
      else
        (let c = c0\<lparr>m_request := False\<rparr> in
         if 0 < sint (m_retries c)
         then Inr (c\<lparr>m_retries := m_retries c - 1\<rparr>,
                   ReportFailure RESOLVE_FAILURE err (m_connection c) (m_retries c \<noteq> 0))
         else Inr (c, ReportFailure RESOLVE_FAILURE err (m_connection c) (m_retries c \<noteq> 0))))"

definition OnResolveSuccess ::
    "sockaddr list \<Rightarrow> bool \<Rightarrow> ConnectionBase \<Rightarrow> error + ConnectionBase \<times> dns_outcome" where
  "OnResolveSuccess response created c =
     (if m_bev c \<or> m_resolved c \<noteq> [] \<or> \<not> at_end c then Inl AssertionFailed
      else ConnectResolved created
             (c\<lparr>m_request := False, m_resolved := response, m_iter := 0\<rparr>))"

text \<open>The buffer event is handed to the base class with the success.\<close>

definition OnConnectSuccess :: "ConnectionBase \<Rightarrow> error + ConnectionBase \<times> dns_outcome" where
  "OnConnectSuccess c =
     (if \<not> m_bev c \<or> m_resolved c = [] \<or> at_end c \<or> m_request c then Inl AssertionFailed
      else
        (let resolved = resolved_connection (m_connection c) (m_resolved c ! m_iter c)
         in Inr (c\<lparr>m_resolved := [], m_iter := 0, m_retries := nRetries (m_connection c),
                   m_bev := False\<rparr>,
                 ReportConnected resolved)))"

definition OnConnectFailure :: "cint \<Rightarrow> ConnectionBase \<Rightarrow> error + ConnectionBase \<times> dns_outcome" where
  "OnConnectFailure event c =
     (if m_request c \<or> at_end c \<or> m_resolved c = [] then Inl AssertionFailed
      else ConnectionFailure event (c\<lparr>m_bev := False\<rparr>))"

section \<open>Operations of the handler\<close>

text \<open>
  \<open>Start\<close>. The rate-limit groups and their configurations are libevent objects that no
  handler decision reads; they are not part of the state.
\<close>

definition Start :: "cint \<Rightarrow> handler \<Rightarrow> error + handler" where
  "Start outgoing_limit s0 =
     (let s = s0\<lparr>m_shutdown := False\<rparr> in
      if m_outgoing_conn_count s \<noteq> 0 \<or> m_incoming_conn_count s \<noteq> 0
         \<or> m_event_base s \<or> m_dns_base s \<or> m_request_event s \<or> m_shutdown_event s
      then Inl AssertionFailed
      else Inr (activate_request (emit CB_OnStartup
             (s\<lparr>m_outgoing_conn_limit := outgoing_limit, m_event_base := True,
                m_dns_base := True, m_request_event := True,
                m_shutdown_event := True\<rparr>))))"

text \<open>
  The first loop of \<open>ShutdownInt\<close>, over the local map \<open>disconnecting\<close> that was swapped
  out of \<open>m_connected\<close>.
\<close>

fun disconnect_all :: "ConnectionBase cmap \<Rightarrow> handler \<Rightarrow> handler" where
  "disconnect_all [] s = s"
| "disconnect_all ((k, c) # rest) s =
     disconnect_all rest
       (emit (CB_OnDisconnected k False)
          (if IsOutgoing c
           then s\<lparr>m_outgoing_conn_count := m_outgoing_conn_count s - 1\<rparr>
           else s\<lparr>m_incoming_conn_count := m_incoming_conn_count s - 1\<rparr>))"

text \<open>
  The second loop, over \<open>m_connecting\<close> itself: the callback runs while the entry is
  still in the map, and the loop increment erases it. The first argument is the part
  of the map not yet visited.
\<close>

fun fail_connecting :: "ConnectionBase cmap \<Rightarrow> handler \<Rightarrow> handler" where
  "fail_connecting [] s = s"
| "fail_connecting ((k, c) # rest) s =
     fail_connecting rest
       ((if IsOutgoing c
         then emit (CB_OnConnectionFailure (GetBaseConnection c) (GetBaseConnection c) False) s
         else s)\<lparr>m_connecting := rest\<rparr>)"

definition ShutdownInt :: "handler \<Rightarrow> error + handler" where
  "ShutdownInt s =
     (if m_shutdown s then Inr s
      else
        (let disconnecting = m_connected s;
             s1 = s\<lparr>m_connected := [], m_binds := [], m_shutdown := True\<rparr>;
             s2 = disconnect_all disconnecting s1;
             s3 = fail_connecting (m_connecting s2) s2;
             s4 = s3\<lparr>m_dns_resolves := [], m_dns_base := False,
                     m_request_event := False, m_shutdown_event := False\<rparr>
         in if m_connecting s4 \<noteq> [] \<or> m_connected s4 \<noteq> [] \<or> m_dns_resolves s4 \<noteq> []
               \<or> m_outgoing_conn_count s4 \<noteq> 0 \<or> m_incoming_conn_count s4 \<noteq> 0
            then Inl AssertionFailed
            else Inr s4))"

definition OnResolveComplete ::
    "ConnID \<Rightarrow> CConnection \<Rightarrow> CConnection list \<Rightarrow> handler \<Rightarrow> handler" where
  "OnResolveComplete k conn resolved s0 =
     (let s = emit (CB_OnDnsResponse conn resolved) s0
      in s\<lparr>m_dns_resolves := map_erase k (m_dns_resolves s)\<rparr>)"

definition OnResolveFailure ::
    "ConnID \<Rightarrow> CConnection \<Rightarrow> cint \<Rightarrow> bool \<Rightarrow> handler \<Rightarrow> error + handler" where
  "OnResolveFailure k conn err retry0 s0 =
     (let retry = (retry0 \<and> \<not> m_shutdown s0);
          s = emit (CB_OnDnsFailure conn retry) s0
      in case map_find k (m_dns_resolves s) of
           None \<Rightarrow> Inl AssertionFailed
         | Some r \<Rightarrow>
             Inr (request_active
                    (if retry then invoke k Call_RetryResolve s
                     else s\<lparr>m_dns_resolves := map_erase k (m_dns_resolves s)\<rparr>)))"

definition OnWriteBufferReady :: "ConnID \<Rightarrow> size_t \<Rightarrow> handler \<Rightarrow> handler" where
  "OnWriteBufferReady k bufsize s = emit (CB_OnWriteBufferReady k bufsize) s"

definition OnWriteBufferFull :: "ConnID \<Rightarrow> size_t \<Rightarrow> handler \<Rightarrow> handler" where
  "OnWriteBufferFull k bufsize s = emit (CB_OnWriteBufferFull k bufsize) s"

text \<open>\<open>keep\<close> is what the embedder's \<open>OnReceiveMessages\<close> returns.\<close>

definition OnReceiveMessages ::
    "ConnID \<Rightarrow> 8 word list list \<Rightarrow> size_t \<Rightarrow> bool \<Rightarrow> handler \<Rightarrow> bool \<times> handler" where
  "OnReceiveMessages k msgs totalsize keep s =
     (keep, emit (CB_OnReceiveMessages k msgs totalsize) s)"

definition OnDisconnected :: "ConnID \<Rightarrow> bool \<Rightarrow> handler \<Rightarrow> error + handler" where
  "OnDisconnected k reconnect0 s0 =
     (let reconnect = (reconnect0 \<and> \<not> m_shutdown s0) in
      case map_find k (m_connected s0) of
        None \<Rightarrow> Inl AssertionFailed
      | Some moved \<Rightarrow>
          (let s1 = s0\<lparr>m_connected := map_erase k (m_connected s0)\<rparr>;
               s2 = (if IsOutgoing moved
                     then s1\<lparr>m_outgoing_conn_count := m_outgoing_conn_count s1 - 1\<rparr>
                     else s1\<lparr>m_incoming_conn_count := m_incoming_conn_count s1 - 1\<rparr>);
               s3 = emit (CB_OnDisconnected k reconnect) s2
           in if reconnect then
                (let (newId, s4) = next_id s3
                 in Inr (invoke newId (Call_Retry newId)
                           (s4\<lparr>m_connecting := map_emplace newId moved (m_connecting s4)\<rparr>)))
              else Inr (request_active s3)))"

definition OnListenFailure :: "ConnID \<Rightarrow> CConnection \<Rightarrow> handler \<Rightarrow> handler" where
  "OnListenFailure k bind s0 =
     (let s = emit (CB_OnBindFailure bind) s0
      in s\<lparr>m_binds := map_erase k (m_binds s)\<rparr>)"

text \<open>
  \<open>OnConnectionFailure\<close>. The enumeration \<open>ConnectionFailureType\<close> (eventtypes.h) is not
  among the sources; it is tested as \<open>type & PROXY\<close>, then \<open>type & RESOLVE\<close>, and a
  failure carries one of the three kinds.
\<close>

definition failure_callback :: "ConnectionFailureType \<Rightarrow> CConnection \<Rightarrow> bool \<Rightarrow> callback" where
  "failure_callback type failed retry =
     (if type = PROXY_FAILURE then CB_OnProxyFailure failed retry
      else if type = RESOLVE_FAILURE then CB_OnDnsFailure failed retry
      else CB_OnConnectionFailure failed failed retry)"

definition OnConnectionFailure ::
    "ConnID \<Rightarrow> ConnectionFailureType \<Rightarrow> cint \<Rightarrow> CConnection \<Rightarrow> bool \<Rightarrow> handler
       \<Rightarrow> error + handler" where
  "OnConnectionFailure k type err failed retry0 s0 =
     (case map_find k (m_connecting s0) of
        None \<Rightarrow> Inl AssertionFailed
      | Some ptr \<Rightarrow>
          (let s1 = s0\<lparr>m_connecting := map_erase k (m_connecting s0)\<rparr>;
               retry = (retry0 \<and> \<not> m_shutdown s1);
               s2 = emit (failure_callback type failed retry) s1
           in if retry \<and> \<not> m_shutdown s2 then
                (let (newId, s3) = next_id s2
                 in Inr (invoke newId (Call_Retry newId)
                           (s3\<lparr>m_connecting := map_emplace newId ptr (m_connecting s3)\<rparr>)))
              else Inr (request_active s2)))"

text \<open>\<open>accept\<close> is what the embedder's \<open>OnIncomingConnection\<close> returns.\<close>

definition OnIncomingConnected ::
    "ConnID \<Rightarrow> CConnection \<Rightarrow> CConnection \<Rightarrow> bool \<Rightarrow> handler \<Rightarrow> error + handler" where
  "OnIncomingConnected k conn resolved_conn accept s0 =
     (case map_find k (m_connecting s0) of
        None \<Rightarrow> Inl AssertionFailed
      | Some moved \<Rightarrow>
          (let s1 = s0\<lparr>m_connecting := map_erase k (m_connecting s0)\<rparr>;
               s2 = emit (CB_OnIncomingConnection k conn resolved_conn) s1
           in if accept then
                (let s3 = invoke k (Call_SetRateLimitGroup incoming_rate_limit) s2;
                     s4 = s3\<lparr>m_connected := map_emplace k moved (m_connected s3)\<rparr>
                 in Inr (s4\<lparr>m_incoming_conn_count := m_incoming_conn_count s4 + 1\<rparr>))
              else Inr s2))"

definition OnOutgoingConnected ::
    "ConnID \<Rightarrow> CConnection \<Rightarrow> CConnection \<Rightarrow> handler \<Rightarrow> error + handler" where
  "OnOutgoingConnected k conn resolved_conn s0 =
     (case map_find k (m_connecting s0) of
        None \<Rightarrow> Inl AssertionFailed
      | Some moved \<Rightarrow>
          (let s1 = invoke k (Call_SetRateLimitGroup outgoing_rate_limit) s0;
               s2 = s1\<lparr>m_connecting := map_erase k (m_connecting s1)\<rparr>;
               s3 = s2\<lparr>m_connected := map_emplace k moved (m_connected s2)\<rparr>;
               s4 = emit (CB_OnOutgoingConnection k conn resolved_conn) s3;
               s5 = emit (CB_OnReadyForFirstSend k) s4
           in Inr (s5\<lparr>m_outgoing_conn_count := m_outgoing_conn_count s5 + 1\<rparr>)))"

text \<open>
  Modelled from the spec: \<open>ConnectionBase::OnConnectionFailure\<close> and
  \<open>ConnectionBase::OnOutgoingConnected\<close> (connectionbase.cpp) are not among the
  sources; they pass what the variant reports to the handler, under the object's id
  and with its base connection.
\<close>

definition deliver ::
    "ConnID \<Rightarrow> error + ConnectionBase \<times> dns_outcome \<Rightarrow> handler \<Rightarrow> error + handler" where
  "deliver k r s =
     (case r of
        Inl e \<Rightarrow> Inl e
      | Inr (c', out) \<Rightarrow>
          (let s1 = s\<lparr>m_connecting := map_assign k c' (m_connecting s)\<rparr>
           in case out of
                StartedResolve \<Rightarrow> Inr s1
              | StartedConnect a \<Rightarrow> Inr s1
              | ReportFailure type err failed retry \<Rightarrow>
                  OnConnectionFailure k type err failed retry s1
              | ReportConnected resolved \<Rightarrow>
                  OnOutgoingConnected k (m_connection c') resolved s1))"

text \<open>
  Modelled from the spec: \<open>CIncomingConn::Connect\<close> (incomingconn.cpp) is not among
  the sources. It completes immediately: the accepted connection is reported to the
  handler, with the peer address as its resolved destination. \<open>accept\<close> is what the
  embedder's \<open>OnIncomingConnection\<close> returns.
\<close>

definition CIncomingConn_Connect ::
    "ConnID \<Rightarrow> ConnectionBase \<Rightarrow> bool \<Rightarrow> handler \<Rightarrow> error + handler" where
  "CIncomingConn_Connect k c accept s =
     OnIncomingConnected k (m_connection c) (resolved_connection (m_connection c) (m_addr c))
       accept s"

text \<open>
  Modelled from the spec: \<open>CDirectConnection::Connect\<close> and \<open>CProxyConn::Connect\<close>
  (directconn.cpp, proxyconn.cpp) are not among the sources. They open a buffered
  stream to the destination; the outcome of the attempt arrives as a later event, and
  the handler is as it was when they return.
\<close>

definition CDirectConnection_Connect :: "handler \<Rightarrow> error + handler" where
  "CDirectConnection_Connect s = Inr s"

definition CProxyConn_Connect :: "handler \<Rightarrow> error + handler" where
  "CProxyConn_Connect s = Inr s"

text \<open>
  The virtual call \<open>it->second->Connect()\<close> on the object stored under an id. For a DNS
  connection it runs \<open>CDNSConnection::Connect\<close>, whose report reaches the handler
  before the call returns.
\<close>

definition call_Connect :: "ConnID \<Rightarrow> replies \<Rightarrow> handler \<Rightarrow> error + handler" where
  "call_Connect k env s =
     (case map_find k (m_connecting s) of
        None \<Rightarrow> Inr s
      | Some c \<Rightarrow>
          (case kind c of
             DNS \<Rightarrow> deliver k (Connect (bev_created env) c) s
           | Incoming \<Rightarrow> CIncomingConn_Connect k c (incoming_accepted env) s
           | Direct \<Rightarrow> CDirectConnection_Connect s
           | Proxy \<Rightarrow> CProxyConn_Connect s))"

text \<open>
  Modelled from the spec: the constructor of \<open>CIncomingConn\<close> (incomingconn.cpp) is not
  among the sources; the object made for an accepted socket carries the listener's bind
  descriptor and the peer address.
\<close>

definition CIncomingConn :: "CConnection \<Rightarrow> sockaddr \<Rightarrow> ConnectionBase" where
  "CIncomingConn bind address = (new_connection Incoming bind)\<lparr>m_addr := address\<rparr>"

definition OnIncomingConnection ::
    "CConnection \<Rightarrow> sockaddr \<Rightarrow> replies \<Rightarrow> handler \<Rightarrow> error + handler" where
  "OnIncomingConnection bind address env s0 =
     (let (k, s) = next_id s0;
          ptr = CIncomingConn bind address
      in call_Connect k env
           (invoke k Call_Connect
              (s\<lparr>m_connecting := map_emplace k ptr (m_connecting s)\<rparr>)))"

text \<open>\<open>ret\<close> is the result of \<open>listener->Bind()\<close> (listener.cpp).\<close>

definition Bind :: "CConnection \<Rightarrow> bool \<Rightarrow> handler \<Rightarrow> bool \<times> handler" where
  "Bind conn ret s0 =
     (let (k, s) = next_id s0
      in if ret
         then (ret, invoke k Call_Enable (s\<lparr>m_binds := map_emplace k conn (m_binds s)\<rparr>))
         else (ret, s))"

text \<open>
  \<open>StartConnection\<close>. The branch for a DNS name with \<open>RESOLVE_ONLY\<close> and a proxy is an
  empty block in the source, marked \<open>TODO\<close>. The body of \<open>CResolveOnly::Resolve\<close>
  (resolveonly.cpp) starts a lookup and is recorded.
\<close>

definition StartConnection :: "CConnection \<Rightarrow> replies \<Rightarrow> handler \<Rightarrow> error + handler" where
  "StartConnection conn env s0 =
     (let (k, s) = next_id s0 in
      if IsDNS conn \<and> doResolve conn = RESOLVE_ONLY then
        (if ProxyIsSet conn then Inr s
         else Inr (invoke k Call_Resolve
                     (s\<lparr>m_dns_resolves := map_emplace k conn (m_dns_resolves s)\<rparr>)))
      else
        (let ptr = (if ProxyIsSet conn then new_connection Proxy conn
                    else if IsDNS conn then new_connection DNS conn
                    else new_connection Direct conn)
         in call_Connect k env
              (invoke k Call_Connect
                 (s\<lparr>m_connecting := map_emplace k ptr (m_connecting s)\<rparr>))))"

definition g_max_simultaneous_connecting :: cint where
  "g_max_simultaneous_connecting = 8"

text \<open>\<open>std::min\<close> on \<open>int\<close>: \<open>(b < a) ? b : a\<close>, compared as signed values.\<close>

definition std_min :: "cint \<Rightarrow> cint \<Rightarrow> cint" where
  "std_min a b = (if sint b < sint a then b else a)"

text \<open>
  \<open>(size_t)std::min(g_max_simultaneous_connecting,
     m_outgoing_conn_limit - m_outgoing_conn_count - (int)m_connecting.size())\<close>:
  the size is truncated to \<open>int\<close>, and the conversion of the \<open>int\<close> result to
  \<open>size_t\<close> sign-extends.
\<close>

definition need_outgoing :: "handler \<Rightarrow> size_t" where
  "need_outgoing s =
     scast (std_min g_max_simultaneous_connecting
              (m_outgoing_conn_limit s - m_outgoing_conn_count s
                 - word_of_nat (length (m_connecting s))))"

fun start_each :: "CConnection list \<Rightarrow> replies \<Rightarrow> handler \<Rightarrow> error + handler" where
  "start_each [] env s = Inr s"
| "start_each (c # cs) env s =
     (if IsSet c
      then (case StartConnection c env s of
              Inl e \<Rightarrow> Inl e
            | Inr s' \<Rightarrow> start_each cs env s')
      else start_each cs env s)"

text \<open>
  The refill cycle. \<open>embedder\<close> is the embedder's \<open>OnNeedOutgoingConnections\<close>: the
  list it returns for the number asked.
\<close>

definition RequestOutgoingInt ::
    "(size_t \<Rightarrow> CConnection list) \<Rightarrow> replies \<Rightarrow> handler \<Rightarrow> error + handler" where
  "RequestOutgoingInt embedder env s =
     (let need = need_outgoing s in
      if need > 0 then
        (let s1 = emit (CB_OnNeedOutgoingConnections need) s;
             conns = embedder need
         in start_each (take (min (length conns) (unat need)) conns) env s1)
      else Inr s)"

definition CloseConnection :: "ConnID \<Rightarrow> bool \<Rightarrow> handler \<Rightarrow> handler" where
  "CloseConnection k immediately s =
     (case map_find k (m_connected s) of
        Some c \<Rightarrow>
          (if immediately then invoke k Call_Disconnect s
           else invoke k Call_DisconnectWhenFinished s)
      | None \<Rightarrow> s)"

definition PauseRecv :: "ConnID \<Rightarrow> handler \<Rightarrow> handler" where
  "PauseRecv k s =
     (case map_find k (m_connected s) of Some c \<Rightarrow> invoke k Call_PauseRecv s | None \<Rightarrow> s)"

definition UnpauseRecv :: "ConnID \<Rightarrow> handler \<Rightarrow> handler" where
  "UnpauseRecv k s =
     (case map_find k (m_connected s) of Some c \<Rightarrow> invoke k Call_UnpauseRecv s | None \<Rightarrow> s)"

text \<open>\<open>written\<close> is the result of \<open>ConnectionBase::Write\<close> (connectionbase.cpp).\<close>

definition Send :: "ConnID \<Rightarrow> 8 word list \<Rightarrow> bool \<Rightarrow> handler \<Rightarrow> bool \<times> handler" where
  "Send k data written s =
     (case map_find k (m_connected s) of
        None \<Rightarrow> (False, s)
      | Some c \<Rightarrow> (written, invoke k (Call_Write data) s))"

definition SetRateLimit :: "ConnID \<Rightarrow> CRateLimit \<Rightarrow> handler \<Rightarrow> handler" where
  "SetRateLimit k limit s =
     (case map_find k (m_connected s) of
        Some c \<Rightarrow> invoke k (Call_SetRateLimit limit) s
      | None \<Rightarrow> s)"


section \<open>Events of the reactor\<close>

text \<open>
  The events that the reactor dispatches to the handler or to one of its objects. An
  event names the object by its id; it cannot occur (\<open>NotApplicable\<close>) when no such
  object is stored. The events of a DNS connection run the code of that class; for the
  Direct and Proxy variants, whose sources are missing, the event carries what the
  variant reports. Values that the environment decides are part of the event.

  The handler's calls of \<open>Connect\<close> and \<open>Retry\<close> on an object are recorded in the
  history. Modelled from the spec: \<open>ConnectionBase::Retry\<close> is not among the sources;
  it arms the reconnect timer of the object, and \<open>Ev_Reconnect\<close> is the expiry of that
  timer, which calls \<open>Connect\<close>.
\<close>

datatype reactor_event =
    Ev_RequestOutgoing "CConnection list" replies
  | Ev_Shutdown
  | Ev_Accept ConnID sockaddr replies
  | Ev_ListenFailure ConnID
  | Ev_Connected ConnID CConnection
  | Ev_Failed ConnID ConnectionFailureType cint CConnection bool
  | Ev_Disconnected ConnID bool
  | Ev_Reconnect ConnID replies
  | Ev_DnsResolveFailure ConnID cint
  | Ev_DnsResolveSuccess ConnID "sockaddr list" bool
  | Ev_DnsConnectFailure ConnID cint
  | Ev_DnsConnectSuccess ConnID
  | Ev_ResolveComplete ConnID "CConnection list"
  | Ev_ResolveFailure ConnID cint bool
  | Ev_ReceiveMessages ConnID "8 word list list" size_t bool
  | Ev_WriteBufferFull ConnID size_t
  | Ev_WriteBufferReady ConnID size_t

datatype failure = Assertion | NotApplicable

text \<open>
  Modelled from the spec: \<open>ConnectionBase::OnDisconnected\<close> (connectionbase.cpp), which
  reports a disconnect to the handler, is not among the sources. An incoming connection
  ends when it is disconnected (its states are Accepted, Established and Terminal), so
  only an outgoing connection is reported with \<open>reconnect\<close> true.
\<close>

definition ConnectionBase_OnDisconnected ::
    "ConnID \<Rightarrow> ConnectionBase \<Rightarrow> bool \<Rightarrow> handler \<Rightarrow> error + handler" where
  "ConnectionBase_OnDisconnected k c reconnect s =
     OnDisconnected k (reconnect \<and> IsOutgoing c) s"

definition lift :: "error + handler \<Rightarrow> failure + handler" where
  "lift r = (case r of Inl e \<Rightarrow> Inl Assertion | Inr s \<Rightarrow> Inr s)"

definition on_dns ::
    "ConnID \<Rightarrow> (ConnectionBase \<Rightarrow> error + ConnectionBase \<times> dns_outcome) \<Rightarrow> handler
       \<Rightarrow> failure + handler" where
  "on_dns k f s =
     (case map_find k (m_connecting s) of
        None \<Rightarrow> Inl NotApplicable
      | Some c \<Rightarrow> if kind c = DNS then lift (deliver k (f c) s) else Inl NotApplicable)"

fun dispatch :: "reactor_event \<Rightarrow> handler \<Rightarrow> failure + handler" where
  "dispatch (Ev_RequestOutgoing conns env) s = lift (RequestOutgoingInt (\<lambda>need. conns) env s)"
| "dispatch Ev_Shutdown s = lift (ShutdownInt s)"
| "dispatch (Ev_Accept b address env) s =
     (case map_find b (m_binds s) of
        None \<Rightarrow> Inl NotApplicable
      | Some bind \<Rightarrow> lift (OnIncomingConnection bind address env s))"
| "dispatch (Ev_ListenFailure b) s =
     (case map_find b (m_binds s) of
        None \<Rightarrow> Inl NotApplicable
      | Some bind \<Rightarrow> Inr (OnListenFailure b bind s))"
| "dispatch (Ev_Connected k resolved) s =
     (case map_find k (m_connecting s) of
        None \<Rightarrow> Inl NotApplicable
      | Some c \<Rightarrow>
          if kind c = Direct \<or> kind c = Proxy
          then lift (OnOutgoingConnected k (m_connection c) resolved s)
          else Inl NotApplicable)"
| "dispatch (Ev_Failed k type err failed retry) s =
     (case map_find k (m_connecting s) of
        None \<Rightarrow> Inl NotApplicable
      | Some c \<Rightarrow>
          if kind c = Direct \<or> kind c = Proxy
          then lift (OnConnectionFailure k type err failed retry s)
          else Inl NotApplicable)"
| "dispatch (Ev_Disconnected k reconnect) s =
     (case map_find k (m_connected s) of
        None \<Rightarrow> Inl NotApplicable
      | Some c \<Rightarrow> lift (ConnectionBase_OnDisconnected k c reconnect s))"
| "dispatch (Ev_Reconnect k env) s =
     (case map_find k (m_connecting s) of
        None \<Rightarrow> Inl NotApplicable
      | Some c \<Rightarrow> lift (call_Connect k env s))"
| "dispatch (Ev_DnsResolveFailure k err) s = on_dns k (OnResolveFailure_dns err) s"
| "dispatch (Ev_DnsResolveSuccess k response created) s =
     on_dns k (OnResolveSuccess response created) s"
| "dispatch (Ev_DnsConnectFailure k event) s = on_dns k (OnConnectFailure event) s"
| "dispatch (Ev_DnsConnectSuccess k) s = on_dns k OnConnectSuccess s"
| "dispatch (Ev_ResolveComplete k resolved) s =
     (case map_find k (m_dns_resolves s) of
        None \<Rightarrow> Inl NotApplicable
      | Some conn \<Rightarrow> Inr (OnResolveComplete k conn resolved s))"
| "dispatch (Ev_ResolveFailure k err retry) s =
     (case map_find k (m_dns_resolves s) of
        None \<Rightarrow> Inl NotApplicable
      | Some conn \<Rightarrow> lift (OnResolveFailure k conn err retry s))"
| "dispatch (Ev_ReceiveMessages k msgs totalsize keep) s =
     Inr (snd (OnReceiveMessages k msgs totalsize keep s))"
| "dispatch (Ev_WriteBufferFull k bufsize) s = Inr (OnWriteBufferFull k bufsize s)"
| "dispatch (Ev_WriteBufferReady k bufsize) s = Inr (OnWriteBufferReady k bufsize s)"

text \<open>
  \<open>event_base_loop\<close> dispatches the ready events in turn until one of them has called
  \<open>event_base_loopbreak\<close>, which only \<open>ShutdownInt\<close> does, on setting \<open>m_shutdown\<close>.
\<close>

fun event_base_loop :: "reactor_event list \<Rightarrow> handler \<Rightarrow> failure + handler" where
  "event_base_loop [] s = Inr s"
| "event_base_loop (e # es) s =
     (case dispatch e s of
        Inl x \<Rightarrow> Inl x
      | Inr s' \<Rightarrow> if m_shutdown s' then Inr s' else event_base_loop es s')"

text \<open>
  \<open>PumpEvents\<close>; \<open>ready\<close> are the events that are ready in this iteration of the
  reactor. Events are dispatched nowhere else.
\<close>

definition PumpEvents :: "bool \<Rightarrow> reactor_event list \<Rightarrow> handler \<Rightarrow> failure + bool \<times> handler" where
  "PumpEvents block ready s =
     (if \<not> m_event_base s then Inr (False, s)
      else if m_shutdown s then Inr (False, s)
      else case event_base_loop ready s of
             Inl x \<Rightarrow> Inl x
           | Inr s1 \<Rightarrow>
               if m_shutdown s1
               then Inr (False, emit CB_OnShutdown (s1\<lparr>m_event_base := False\<rparr>))
               else Inr (True, s1))"

text \<open>\<open>Shutdown\<close> activates the shutdown event; the reactor dispatches it later.\<close>

definition Shutdown :: "handler \<Rightarrow> handler" where
  "Shutdown s = s\<lparr>history := history s @ [ShutdownActivated]\<rparr>"

text \<open>
  The calls of the handler's interface. Values that the environment decides (whether a
  bind or a write succeeds, which events are ready) are part of the command.
\<close>

datatype command =
    Cmd_Start cint
  | Cmd_PumpEvents bool "reactor_event list"
  | Cmd_Shutdown
  | Cmd_Bind CConnection bool
  | Cmd_StartConnection CConnection replies
  | Cmd_CloseConnection ConnID bool
  | Cmd_PauseRecv ConnID
  | Cmd_UnpauseRecv ConnID
  | Cmd_Send ConnID "8 word list" bool
  | Cmd_SetRateLimit ConnID CRateLimit

fun step :: "command \<Rightarrow> handler \<Rightarrow> failure + handler" where
  "step (Cmd_Start limit) s = lift (Start limit s)"
| "step (Cmd_PumpEvents block ready) s =
     (case PumpEvents block ready s of Inl x \<Rightarrow> Inl x | Inr (ret, s') \<Rightarrow> Inr s')"
| "step Cmd_Shutdown s = Inr (Shutdown s)"
| "step (Cmd_Bind conn ret) s = Inr (snd (Bind conn ret s))"
| "step (Cmd_StartConnection conn env) s = lift (StartConnection conn env s)"
| "step (Cmd_CloseConnection k immediately) s = Inr (CloseConnection k immediately s)"
| "step (Cmd_PauseRecv k) s = Inr (PauseRecv k s)"
| "step (Cmd_UnpauseRecv k) s = Inr (UnpauseRecv k s)"
| "step (Cmd_Send k data written) s = Inr (snd (Send k data written s))"
| "step (Cmd_SetRateLimit k limit) s = Inr (SetRateLimit k limit s)"

fun run :: "command list \<Rightarrow> handler \<Rightarrow> failure + handler" where
  "run [] s = Inr s"
| "run (c # cs) s = (case step c s of Inl x \<Rightarrow> Inl x | Inr s' \<Rightarrow> run cs s')"

section \<open>Histories, invariants and example runs\<close>

text \<open>Projections of the history: callbacks delivered, ids allocated.\<close>

fun callbacks_of :: "entry list \<Rightarrow> callback list" where
  "callbacks_of [] = []"
| "callbacks_of (Callback cb ob # evs) = cb # callbacks_of evs"
| "callbacks_of (e # evs) = callbacks_of evs"

fun allocated_ids :: "entry list \<Rightarrow> ConnID list" where
  "allocated_ids [] = []"
| "allocated_ids (Allocated k # evs) = k # allocated_ids evs"
| "allocated_ids (e # evs) = allocated_ids evs"

text \<open>The ids for which \<open>OnOutgoingConnection\<close> has been delivered.\<close>

fun announced :: "entry list \<Rightarrow> ConnID list" where
  "announced [] = []"
| "announced (Callback (CB_OnOutgoingConnection k conn resolved) ob # evs) = k # announced evs"
| "announced (e # evs) = announced evs"

text \<open>
  \<open>ready_preceded seen evs\<close>: read from left to right, every \<open>OnReadyForFirstSend(id)\<close>
  in \<open>evs\<close> comes after an \<open>OnOutgoingConnection(id)\<close>, or \<open>id\<close> is in \<open>seen\<close>.
\<close>

fun ready_preceded :: "ConnID list \<Rightarrow> entry list \<Rightarrow> bool" where
  "ready_preceded seen [] = True"
| "ready_preceded seen (Callback (CB_OnOutgoingConnection k conn resolved) ob # evs) =
     ready_preceded (k # seen) evs"
| "ready_preceded seen (Callback (CB_OnReadyForFirstSend k) ob # evs) =
     (k \<in> set seen \<and> ready_preceded seen evs)"
| "ready_preceded seen (e # evs) = ready_preceded seen evs"

text \<open>The counters agree with the connected map, in a state and in an observation.\<close>

definition counts_ok :: "handler \<Rightarrow> bool" where
  "counts_ok s \<longleftrightarrow>
     m_outgoing_conn_count s = word_of_nat (count_outgoing (m_connected s))
     \<and> m_incoming_conn_count s = word_of_nat (count_incoming (m_connected s))"

definition observed_counts_ok :: "observation \<Rightarrow> bool" where
  "observed_counts_ok ob \<longleftrightarrow>
     ob_outgoing_conn_count ob = word_of_nat (count_outgoing (ob_connected ob))
     \<and> ob_incoming_conn_count ob = word_of_nat (count_incoming (ob_connected ob))"

text \<open>The callbacks during which the embedder sees counters that disagree with the map.\<close>

fun seen_inconsistent :: "entry list \<Rightarrow> callback list" where
  "seen_inconsistent [] = []"
| "seen_inconsistent (Callback cb ob # evs) =
     (if observed_counts_ok ob then seen_inconsistent evs else cb # seen_inconsistent evs)"
| "seen_inconsistent (e # evs) = seen_inconsistent evs"

text \<open>
  The ids in use are below the counter, no id is in both \<open>m_connected\<close> and
  \<open>m_connecting\<close>, and \<open>m_connected\<close> has one entry per key.
\<close>

definition ids_ok :: "handler \<Rightarrow> bool" where
  "ids_ok s \<longleftrightarrow>
     distinct (map fst (m_connected s))
     \<and> list_all (\<lambda>p. fst p < m_connection_index s) (m_connected s)
     \<and> list_all (\<lambda>p. fst p < m_connection_index s) (m_connecting s)
     \<and> list_all (\<lambda>p. map_find (fst p) (m_connected s) = None) (m_connecting s)"

definition handler_inv :: "handler \<Rightarrow> bool" where
  "handler_inv s \<longleftrightarrow> counts_ok s \<and> ids_ok s"

text \<open>
  The ids allocated so far are \<open>0, 1, 2, ...\<close> in this order, reduced modulo \<open>2 ^ 32\<close>,
  and the counter is the number of allocations, reduced likewise.
\<close>

definition alloc_inv :: "handler \<Rightarrow> bool" where
  "alloc_inv s \<longleftrightarrow>
     allocated_ids (history s) = map word_of_nat [0..<length (allocated_ids (history s))]
     \<and> m_connection_index s = word_of_nat (length (allocated_ids (history s)))"

text \<open>
  Every \<open>OnReadyForFirstSend\<close> so far came after the \<open>OnOutgoingConnection\<close> of its id,
  and every outgoing entry of \<open>m_connected\<close> has had its \<open>OnOutgoingConnection\<close>.
\<close>

definition order_inv :: "handler \<Rightarrow> bool" where
  "order_inv s \<longleftrightarrow>
     ready_preceded [] (history s)
     \<and> list_all (\<lambda>p. IsOutgoing (snd p) \<longrightarrow> fst p \<in> set (announced (history s)))
          (m_connected s)"

text \<open>Every connection in progress is an outgoing one.\<close>

definition outgoing_inv :: "handler \<Rightarrow> bool" where
  "outgoing_inv s \<longleftrightarrow> list_all (\<lambda>p. IsOutgoing (snd p)) (m_connecting s)"

text \<open>All four maps are empty and both counters are zero.\<close>

definition quiescent :: "observation \<Rightarrow> bool" where
  "quiescent ob \<longleftrightarrow>
     ob_connected ob = [] \<and> ob_connecting ob = [] \<and> ob_binds ob = []
     \<and> ob_dns_resolves ob = [] \<and> ob_outgoing_conn_count ob = 0
     \<and> ob_incoming_conn_count ob = 0"

text \<open>
  The number of ids that an event or a command allocates at most, as long as no id
  taken is a key of \<open>m_connecting\<close> already.
\<close>

fun event_demand :: "reactor_event \<Rightarrow> nat" where
  "event_demand (Ev_RequestOutgoing conns env) = length conns"
| "event_demand (Ev_Accept b address env) = 1"
| "event_demand (Ev_Failed k type err failed retry) = 1"
| "event_demand (Ev_Disconnected k reconnect) = 1"
| "event_demand (Ev_Reconnect k env) = 1"
| "event_demand (Ev_DnsResolveFailure k err) = 1"
| "event_demand (Ev_DnsResolveSuccess k response created) = 1"
| "event_demand (Ev_DnsConnectFailure k event) = 1"
| "event_demand e = 0"

fun id_demand :: "command \<Rightarrow> nat" where
  "id_demand (Cmd_Bind conn ret) = 1"
| "id_demand (Cmd_StartConnection conn env) = 1"
| "id_demand (Cmd_PumpEvents block ready) = sum_list (map event_demand ready)"
| "id_demand c = 0"

definition ids_demanded :: "command list \<Rightarrow> nat" where
  "ids_demanded cs = sum_list (map id_demand cs)"

text \<open>The state that a run from the constructor's state ends in.\<close>

definition state_after :: "command list \<Rightarrow> handler" where
  "state_after cs =
     (case run cs CConnectionHandlerInt of Inr s \<Rightarrow> s | Inl e \<Rightarrow> CConnectionHandlerInt)"

definition direct_dest :: CConnection where
  "direct_dest =
     \<lparr>GetHost = ''203.0.113.7'', GetPort = 8333, IsSet = True, IsDNS = False,
      ProxyIsSet = False, doResolve = RESOLVE, nRetries = 0, resolved_addr = None\<rparr>"

definition bind_dest :: CConnection where
  "bind_dest =
     \<lparr>GetHost = ''0.0.0.0'', GetPort = 8333, IsSet = True, IsDNS = False,
      ProxyIsSet = False, doResolve = NO_RESOLVE, nRetries = 0, resolved_addr = None\<rparr>"

definition dns_dest :: "cint \<Rightarrow> CConnection" where
  "dns_dest n =
     \<lparr>GetHost = ''example.invalid'', GetPort = 8333, IsSet = True, IsDNS = True,
      ProxyIsSet = False, doResolve = RESOLVE, nRetries = n, resolved_addr = None\<rparr>"

definition proxy_resolve_dest :: CConnection where
  "proxy_resolve_dest =
     \<lparr>GetHost = ''seed.example'', GetPort = 8333, IsSet = True, IsDNS = True,
      ProxyIsSet = True, doResolve = RESOLVE_ONLY, nRetries = 0, resolved_addr = None\<rparr>"

text \<open>
  An environment in which buffer events can be created and the embedder accepts
  incoming connections, and one in which the embedder declines them.
\<close>

definition willing :: replies where
  "willing = \<lparr>bev_created = True, incoming_accepted = True\<rparr>"

definition declining :: replies where
  "declining = \<lparr>bev_created = True, incoming_accepted = False\<rparr>"

text \<open>A handler started with limit 8 and a listener bound.\<close>

definition listening_example :: "command list" where
  "listening_example = [Cmd_Start 8, Cmd_Bind bind_dest True]"

text \<open>
  The state in which \<open>OnIncomingConnection\<close>, for a socket that this listener accepted
  from \<open>198.51.100.9\<close>, calls \<open>Connect\<close>: the id 1 is taken and the object is emplaced.
\<close>

definition accepting :: handler where
  "accepting =
     invoke 1 Call_Connect
       ((snd (next_id (state_after listening_example)))
          \<lparr>m_connecting :=
             map_emplace 1 (CIncomingConn bind_dest ''198.51.100.9'')
               (m_connecting (state_after listening_example))\<rparr>)"

text \<open>A handler started with limit 8 and one direct connection in progress.\<close>

definition room_example :: "command list" where
  "room_example = [Cmd_Start 8, Cmd_StartConnection direct_dest willing]"

text \<open>
  A handler started with limit 0 on which the embedder starts one direct connection:
  the limit less the connections in progress is \<open>-1\<close>.
\<close>

definition overfull_example :: "command list" where
  "overfull_example = [Cmd_Start 0, Cmd_StartConnection direct_dest willing]"

text \<open>The same, followed by a refill cycle to which the embedder answers one destination.\<close>

definition overfull_refill_example :: "command list" where
  "overfull_refill_example =
     overfull_example @ [Cmd_PumpEvents False [Ev_RequestOutgoing [direct_dest] willing]]"

text \<open>A DNS name with \<open>RESOLVE_ONLY\<close> and a proxy, started on a running handler.\<close>

definition todo_example :: "command list" where
  "todo_example = [Cmd_Start 8, Cmd_StartConnection proxy_resolve_dest willing]"

text \<open>A resolve-only lookup that fails and is retried.\<close>

definition resolve_only_dest :: CConnection where
  "resolve_only_dest =
     \<lparr>GetHost = ''seed.example'', GetPort = 8333, IsSet = True, IsDNS = True,
      ProxyIsSet = False, doResolve = RESOLVE_ONLY, nRetries = 1, resolved_addr = None\<rparr>"

definition resolve_retry_example :: "command list" where
  "resolve_retry_example =
     [Cmd_Start 8, Cmd_StartConnection resolve_only_dest willing,
      Cmd_PumpEvents False [Ev_ResolveFailure 0 3 True]]"

text \<open>One direct connection requested and established.\<close>

definition connect_example :: "command list" where
  "connect_example =
     [Cmd_Start 8, Cmd_StartConnection direct_dest willing,
      Cmd_PumpEvents False
        [Ev_Connected 0 (resolved_connection direct_dest ''203.0.113.7'')]]"

text \<open>A DNS connection requested with \<open>nRetries = n\<close>, its lookup pending.\<close>

definition dns_pending_example :: "cint \<Rightarrow> command list" where
  "dns_pending_example n = [Cmd_Start 8, Cmd_StartConnection (dns_dest n) willing]"


text \<open>A direct connection whose first attempt fails and is retried.\<close>

definition retry_example :: "command list" where
  "retry_example =
     [Cmd_Start 8, Cmd_StartConnection direct_dest willing,
      Cmd_PumpEvents False [Ev_Failed 0 CONNECT BEV_EVENT_ERROR direct_dest True]]"

text \<open>
  \<open>2 ^ 32 + 1\<close> calls of \<open>Bind\<close> whose listener fails to bind: each takes an id and
  stores nothing.
\<close>

definition wrap_example :: "command list" where
  "wrap_example = replicate (2 ^ 32 + 1) (Cmd_Bind bind_dest False)"

section \<open>Properties\<close>

subsection \<open>The maps\<close>

lemma map_find_erase:
  "map_find k (map_erase k' m) = (if k = k' then None else map_find k m)"
  by (induction m) (auto simp: map_find_def map_erase_def)

lemma set_insert_sorted: "set (insert_sorted k v m) = insert (k, v) (set m)"
  by (induction m) auto

lemma map_find_insert_sorted:
  "map_find k' m = None \<Longrightarrow>
     map_find k (insert_sorted k' v m) = (if k = k' then Some v else map_find k m)"
  by (induction m) (auto simp: map_find_def)

lemma map_find_emplace:
  "map_find k (map_emplace k' v m) =
     (if k = k' then (case map_find k m of None \<Rightarrow> Some v | Some x \<Rightarrow> Some x)
      else map_find k m)"
  by (auto simp: map_emplace_def map_find_insert_sorted)

lemma map_emplace_fresh: "map_find k m = None \<Longrightarrow> map_emplace k v m = insert_sorted k v m"
  by (simp add: map_emplace_def)

lemma map_find_assign:
  "map_find k (map_assign k' v m) =
     (if k = k' then (case map_find k m of None \<Rightarrow> None | Some x \<Rightarrow> Some v)
      else map_find k m)"
  by (induction m) (auto simp: map_find_def map_assign_def)

lemma map_find_None_iff: "map_find k m = None \<longleftrightarrow> k \<notin> fst ` set m"
  by (simp add: map_find_def map_of_eq_None_iff)

lemma map_find_SomeD: "map_find k m = Some v \<Longrightarrow> (k, v) \<in> set m"
  by (simp add: map_find_def map_of_SomeD)

lemma set_map_erase: "set (map_erase k m) = {p \<in> set m. fst p \<noteq> k}"
  by (auto simp: map_erase_def)

lemma set_map_emplace_subset: "set (map_emplace k v m) \<subseteq> insert (k, v) (set m)"
  by (auto simp: map_emplace_def set_insert_sorted)

lemma set_map_emplace_fresh:
  "map_find k m = None \<Longrightarrow> set (map_emplace k v m) = insert (k, v) (set m)"
  by (simp add: map_emplace_def set_insert_sorted)

lemma fst_set_map_assign: "fst ` set (map_assign k v m) = fst ` set m"
  by (induction m) (auto simp: map_assign_def)

lemma map_fst_map_assign: "map fst (map_assign k v m) = map fst m"
  by (induction m) (auto simp: map_assign_def)

lemma length_insert_sorted: "length (insert_sorted k v m) = Suc (length m)"
  by (induction m) auto

lemma length_map_emplace_le: "length (map_emplace k v m) \<le> Suc (length m)"
  by (simp add: map_emplace_def length_insert_sorted)

lemma distinct_map_erase:
  "distinct (map fst m) \<Longrightarrow> distinct (map fst (map_erase k m))"
  by (simp add: map_erase_def distinct_map_filter)

lemma distinct_insert_sorted:
  "distinct (map fst m) \<Longrightarrow> k \<notin> fst ` set m \<Longrightarrow> distinct (map fst (insert_sorted k v m))"
  by (induction m) (auto simp: set_insert_sorted)

lemma distinct_map_emplace:
  "distinct (map fst m) \<Longrightarrow> distinct (map fst (map_emplace k v m))"
  by (simp add: map_emplace_def distinct_insert_sorted map_find_None_iff)

lemma filter_insert_sorted:
  "length (filter P (insert_sorted k v m))
     = (if P (k, v) then Suc (length (filter P m)) else length (filter P m))"
  by (induction m) auto

lemma filter_map_emplace_fresh:
  "map_find k m = None \<Longrightarrow>
     length (filter P (map_emplace k v m))
       = (if P (k, v) then Suc (length (filter P m)) else length (filter P m))"
  by (simp add: map_emplace_def filter_insert_sorted)

lemma filter_map_erase:
  "distinct (map fst m) \<Longrightarrow> map_find k m = Some v \<Longrightarrow>
     length (filter P m) = (if P (k, v) then Suc (length (filter P (map_erase k m))) else length (filter P (map_erase k m)))"
proof (induction m)
  case Nil
  then show ?case by (simp add: map_find_def)
next
  case (Cons p m)
  obtain k' v' where p: "p = (k', v')" by (cases p)
  show ?case
  proof (cases "k' = k")
    case True
    with Cons.prems have v: "v' = v" and nk: "k \<notin> fst ` set m"
      by (auto simp: p map_find_def)
    from nk have "map_erase k m = m"
      by (auto simp: map_erase_def filter_id_conv)
    with True v show ?thesis by (simp add: p map_erase_def)
  next
    case False
    with Cons.prems have "distinct (map fst m)" "map_find k m = Some v"
      by (auto simp: p map_find_def)
    from Cons.IH [OF this] False show ?thesis
      by (simp add: p map_erase_def)
  qed
qed

lemma count_outgoing_emplace:
  "map_find k m = None \<Longrightarrow>
     count_outgoing (map_emplace k v m) = (if IsOutgoing v then Suc (count_outgoing m) else count_outgoing m)"
  by (simp add: count_outgoing_def filter_map_emplace_fresh)

lemma count_incoming_emplace:
  "map_find k m = None \<Longrightarrow>
     count_incoming (map_emplace k v m) = (if IsOutgoing v then count_incoming m else Suc (count_incoming m))"
  by (simp add: count_incoming_def filter_map_emplace_fresh)

lemma count_outgoing_erase:
  "distinct (map fst m) \<Longrightarrow> map_find k m = Some v \<Longrightarrow>
     count_outgoing m = (if IsOutgoing v then Suc (count_outgoing (map_erase k m)) else count_outgoing (map_erase k m))"
  using filter_map_erase [of m k v "\<lambda>p. IsOutgoing (snd p)"] by (simp add: count_outgoing_def)

lemma count_incoming_erase:
  "distinct (map fst m) \<Longrightarrow> map_find k m = Some v \<Longrightarrow>
     count_incoming m = (if IsOutgoing v then count_incoming (map_erase k m) else Suc (count_incoming (map_erase k m)))"
  using filter_map_erase [of m k v "\<lambda>p. \<not> IsOutgoing (snd p)"] by (simp add: count_incoming_def)

subsection \<open>Histories\<close>

lemma callbacks_of_append: "callbacks_of (xs @ ys) = callbacks_of xs @ callbacks_of ys"
  by (induction xs rule: callbacks_of.induct) auto

lemma allocated_ids_append: "allocated_ids (xs @ ys) = allocated_ids xs @ allocated_ids ys"
  by (induction xs rule: allocated_ids.induct) auto

lemma announced_append: "announced (xs @ ys) = announced xs @ announced ys"
  by (induction xs rule: announced.induct) auto

subsection \<open>Signed arithmetic\<close>

lemma sint_of_nat_small: "n < 2 ^ 31 \<Longrightarrow> sint (word_of_nat n :: 32 word) = int n"
  by (simp add: signed_of_nat signed_take_bit_int_eq_self)

lemma scast_nonneg:
  fixes w :: "32 word"
  assumes "0 \<le> sint w"
  shows "unat (scast w :: 64 word) = nat (sint w)"
proof -
  have lt: "sint w < 2 ^ 31" using sint_lt [of w] by simp
  have "(2::int) ^ 31 \<le> 2 ^ 64" by (rule power_increasing) simp_all
  with lt have lt64: "sint w < 2 ^ LENGTH(64)" by simp
  have "unat (scast w :: 64 word) = nat (take_bit LENGTH(64) (sint w))"
    by (simp only: scast_eq unsigned_of_int of_nat_id id_apply)
  also have "take_bit LENGTH(64) (sint w) = sint w"
    using assms lt64 by (rule take_bit_int_eq_self)
  finally show ?thesis .
qed

lemma sint_avail:
  fixes a b :: "32 word"
  assumes "0 \<le> sint b" "0 \<le> sint a - sint b - int n"
  shows "sint (a - b - word_of_nat n) = sint a - sint b - int n"
proof -
  have la: "sint a < 2 ^ 31" using sint_lt [of a] by simp
  have lb: "sint b < 2 ^ 31" using sint_lt [of b] by simp
  have "int n < 2 ^ 31" using assms la by linarith
  then have nlt: "n < 2 ^ 31" by simp
  have n: "sint (word_of_nat n :: 32 word) = int n"
    using nlt by (rule sint_of_nat_small)
  have ab: "sint (a - b) = sint a - sint b"
    using assms la lb by (simp add: sint_word_diff signed_take_bit_int_eq_self)
  have "sint (a - b - word_of_nat n)
          = signed_take_bit 31 (sint (a - b) - sint (word_of_nat n :: 32 word))"
    by (simp add: sint_word_diff)
  also have "\<dots> = signed_take_bit 31 (sint a - sint b - int n)"
    by (simp only: ab n)
  also have "\<dots> = sint a - sint b - int n"
    using assms la lb by (intro signed_take_bit_int_eq_self) linarith+
  finally show ?thesis .
qed

lemma sint_pred:
  fixes r :: cint
  assumes "0 < sint r"
  shows "sint (r - 1) = sint r - 1"
proof -
  have "sint r < 2 ^ 31" using sint_lt [of r] by simp
  then show ?thesis using assms
    by (simp add: sint_word_diff signed_take_bit_int_eq_self)
qed

lemma take_min_length: "take (min (length xs) n) xs = take n xs"
  by (simp add: min_def)

lemma need_outgoing_nonneg:
  assumes "0 \<le> sint (m_outgoing_conn_count s)"
    and "q = sint (m_outgoing_conn_limit s) - sint (m_outgoing_conn_count s)
               - int (length (m_connecting s))"
    and "0 \<le> q"
  shows "unat (need_outgoing s) = nat (min 8 q)"
proof -
  let ?d = "m_outgoing_conn_limit s - m_outgoing_conn_count s
              - word_of_nat (length (m_connecting s))"
  have d: "sint ?d = q"
    using assms sint_avail [of "m_outgoing_conn_count s" "m_outgoing_conn_limit s"
                               "length (m_connecting s)"]
    by simp
  have m: "sint (std_min g_max_simultaneous_connecting ?d) = min 8 q"
    using d by (simp add: std_min_def g_max_simultaneous_connecting_def min_def)
  have "0 \<le> sint (std_min g_max_simultaneous_connecting ?d)"
    using m assms(3) by simp
  then have "unat (scast (std_min g_max_simultaneous_connecting ?d) :: 64 word)
               = nat (sint (std_min g_max_simultaneous_connecting ?d))"
    by (rule scast_nonneg)
  then show ?thesis using m by (simp add: need_outgoing_def)
qed

lemmas handler_defs =
  StartConnection_def next_id_def invoke_def emit_def observe_def new_connection_def
  request_active_def activate_request_def Start_def Bind_def OnIncomingConnection_def CIncomingConn_def
  OnOutgoingConnected_def
  OnIncomingConnected_def OnConnectionFailure_def OnDisconnected_def failure_callback_def
  lift_def on_dns_def deliver_def map_find_def map_erase_def map_assign_def IsOutgoing_def
  CConnectionHandlerInt_def state_after_def resolved_connection_def map_emplace_def
  PumpEvents_def call_Connect_def CIncomingConn_Connect_def CDirectConnection_Connect_def
  CProxyConn_Connect_def CIncomingConn_def ConnectionBase_OnDisconnected_def Connect_def
  DoResolve_def at_end_def willing_def declining_def

subsection \<open>Starting a connection under a fresh id\<close>

lemma assign_absent: "k \<notin> fst ` set m \<Longrightarrow> map_assign k v m = m"
  by (induction m) (auto simp add: map_assign_def)

lemma assign_insert_sorted:
  "k \<notin> fst ` set m \<Longrightarrow> map_assign k v' (insert_sorted k v m) = insert_sorted k v' m"
proof (induction m)
  case Nil
  then show ?case by (simp add: map_assign_def)
next
  case (Cons p m)
  from Cons.prems have a: "k \<noteq> fst p" and b: "k \<notin> fst ` set m" by auto
  from b have c: "map_assign k v' m = m" by (rule assign_absent)
  from a Cons.IH [OF b] c show ?case
    by (auto simp add: map_assign_def)
qed

lemma assign_emplace_fresh:
  "map_find k m = None \<Longrightarrow> map_assign k v' (map_emplace k v m) = map_emplace k v' m"
  by (simp add: map_emplace_def assign_insert_sorted map_find_None_iff)

lemma Connect_new:
  "Connect created (new_connection DNS conn)
     = Inr ((new_connection DNS conn)\<lparr>m_request := True\<rparr>, StartedResolve)"
  by (simp add: Connect_def DoResolve_def at_end_def new_connection_def)

text \<open>
  When the id taken is not a key of \<open>m_connecting\<close>, \<open>Connect\<close> runs on the object
  just made: a DNS connection starts its lookup, and \<open>StartConnection\<close> returns.
\<close>

lemma StartConnection_fresh:
  assumes "map_find (m_connection_index s) (m_connecting s) = None"
  shows "StartConnection conn env s =
           Inr (if IsDNS conn \<and> doResolve conn = RESOLVE_ONLY
                then (if ProxyIsSet conn then snd (next_id s)
                      else invoke (m_connection_index s) Call_Resolve
                             ((snd (next_id s))
                                \<lparr>m_dns_resolves :=
                                   map_emplace (m_connection_index s) conn (m_dns_resolves s)\<rparr>))
                else invoke (m_connection_index s) Call_Connect
                       ((snd (next_id s))
                          \<lparr>m_connecting :=
                             map_emplace (m_connection_index s)
                               (if ProxyIsSet conn then new_connection Proxy conn
                                else if IsDNS conn
                                     then (new_connection DNS conn)\<lparr>m_request := True\<rparr>
                                     else new_connection Direct conn)
                               (m_connecting s)\<rparr>))"
proof -
  have k: "kind (new_connection v conn) = v" for v
    by (simp add: new_connection_def)
  show ?thesis
    using assms
    by (simp add: StartConnection_def call_Connect_def CIncomingConn_Connect_def CDirectConnection_Connect_def
          CProxyConn_Connect_def next_id_def invoke_def Let_def
          map_find_emplace k Connect_new deliver_def assign_emplace_fresh)
qed

lemma OnIncomingConnection_fresh:
  assumes "map_find (m_connection_index s) (m_connecting s) = None"
  shows "OnIncomingConnection bind address env s =
           OnIncomingConnected (m_connection_index s) bind (resolved_connection bind address)
             (incoming_accepted env)
             (invoke (m_connection_index s) Call_Connect
                ((snd (next_id s))
                   \<lparr>m_connecting :=
                      map_emplace (m_connection_index s)
                        (CIncomingConn bind address)
                        (m_connecting s)\<rparr>))"
  using assms
  by (simp add: OnIncomingConnection_def CIncomingConn_def call_Connect_def CIncomingConn_Connect_def CDirectConnection_Connect_def
          CProxyConn_Connect_def next_id_def invoke_def Let_def
        map_find_emplace new_connection_def)




section \<open>Claims on single operations\<close>

text \<open>
  C10. For an id that is not in \<open>m_connected\<close>, \<open>Send\<close> returns false and leaves the
  handler as it was, and \<open>CloseConnection\<close>, \<open>PauseRecv\<close>, \<open>UnpauseRecv\<close> and
  \<open>SetRateLimit\<close> change nothing either; as commands they return normally, with no
  failed assertion.
\<close>

theorem unknown_id_is_noop:
  assumes "map_find k (m_connected s) = None"
  shows "Send k data written s = (False, s)
       \<and> CloseConnection k immediately s = s
       \<and> PauseRecv k s = s
       \<and> UnpauseRecv k s = s
       \<and> SetRateLimit k limit s = s
       \<and> step (Cmd_Send k data written) s = Inr s
       \<and> step (Cmd_CloseConnection k immediately) s = Inr s
       \<and> step (Cmd_PauseRecv k) s = Inr s
       \<and> step (Cmd_UnpauseRecv k) s = Inr s
       \<and> step (Cmd_SetRateLimit k limit) s = Inr s"
  using assms
  by (simp add: Send_def CloseConnection_def PauseRecv_def UnpauseRecv_def SetRateLimit_def)

lemma run_connect_example:
  "run connect_example CConnectionHandlerInt = Inr (state_after connect_example)"
  by (simp add: connect_example_def direct_dest_def handler_defs)

lemma connected_connect_example:
  "m_connected (state_after connect_example) = [(0, new_connection Direct direct_dest)]"
  by (simp add: connect_example_def direct_dest_def handler_defs)

theorem unknown_id_is_noop_witness:
  "map_find 7 (m_connected (state_after connect_example)) = None
   \<and> Send 7 [1, 2, 3] True (state_after connect_example) = (False, state_after connect_example)
   \<and> step (Cmd_CloseConnection 7 True) (state_after connect_example)
        = Inr (state_after connect_example)"
proof -
  have h: "map_find 7 (m_connected (state_after connect_example)) = None"
    by (simp add: connected_connect_example map_find_def)
  show ?thesis
    using h unknown_id_is_noop [OF h, of "[1, 2, 3]" True True] by simp
qed

text \<open>
  C9. When an incoming connection completes and the embedder's \<open>OnIncomingConnection\<close>
  returns false, the object is removed from \<open>m_connecting\<close> and dropped: \<open>m_connected\<close>
  and \<open>m_incoming_conn_count\<close> are as before, and apart from \<open>m_connecting\<close> (and the
  history, which gains the callback) the handler is unchanged.
\<close>

theorem incoming_declined:
  assumes "map_find k (m_connecting s) = Some c"
  shows "\<exists>s'. OnIncomingConnected k conn resolved False s = Inr s'
           \<and> m_connected s' = m_connected s
           \<and> m_incoming_conn_count s' = m_incoming_conn_count s
           \<and> m_connecting s' = map_erase k (m_connecting s)
           \<and> map_find k (m_connecting s') = None
           \<and> callbacks_of (history s')
                = callbacks_of (history s) @ [CB_OnIncomingConnection k conn resolved]
           \<and> s'\<lparr>m_connecting := m_connecting s, history := history s\<rparr> = s"
  using assms
  by (simp add: OnIncomingConnected_def emit_def Let_def map_find_erase callbacks_of_append)

lemma accepting_state:
  "m_connecting accepting
     = [(1, CIncomingConn bind_dest ''198.51.100.9'')]
   \<and> m_connected accepting = [] \<and> m_incoming_conn_count accepting = 0
   \<and> m_connection_index (state_after listening_example) = 1
   \<and> m_connecting (state_after listening_example) = []"
  by (simp add: accepting_def listening_example_def bind_dest_def handler_defs)

theorem incoming_declined_witness:
  "map_find 1 (m_connecting accepting)
     = Some (CIncomingConn bind_dest ''198.51.100.9'')
   \<and> OnIncomingConnection bind_dest ''198.51.100.9'' declining (state_after listening_example)
       = OnIncomingConnected 1 bind_dest (resolved_connection bind_dest ''198.51.100.9'') False
           accepting
   \<and> (\<exists>s'. OnIncomingConnected 1 bind_dest (resolved_connection bind_dest ''198.51.100.9'')
               False accepting = Inr s'
          \<and> m_connected s' = [] \<and> m_connecting s' = [] \<and> m_incoming_conn_count s' = 0)"
proof -
  have h: "map_find 1 (m_connecting accepting)
             = Some (CIncomingConn bind_dest ''198.51.100.9'')"
    by (simp add: accepting_state map_find_def)
  have f: "map_find (m_connection_index (state_after listening_example))
             (m_connecting (state_after listening_example)) = None"
    by (simp add: accepting_state map_find_def)
  have c: "OnIncomingConnection bind_dest ''198.51.100.9'' declining
             (state_after listening_example)
           = OnIncomingConnected 1 bind_dest (resolved_connection bind_dest ''198.51.100.9'')
               False accepting"
    by (simp add: OnIncomingConnection_fresh [OF f] accepting_state accepting_def
          declining_def)
  from incoming_declined [OF h, of bind_dest "resolved_connection bind_dest ''198.51.100.9''"]
  show ?thesis
    using h c by (auto simp add: accepting_state map_erase_def)
qed

text \<open>
  Apart from a DNS name with \<open>RESOLVE_ONLY\<close> and a proxy, \<open>StartConnection\<close> takes the
  next id and chooses as follows. For a DNS name with \<open>RESOLVE_ONLY\<close> it emplaces a
  resolve-only object into \<open>m_dns_resolves\<close> and calls \<open>Resolve\<close>. Otherwise it emplaces
  into \<open>m_connecting\<close> a Proxy connection if a proxy is set, else a DNS connection if the
  host is a DNS name, else a Direct connection, and calls \<open>Connect\<close>, by which a DNS
  connection starts its lookup. This is stated for an id that is not yet a key of
  \<open>m_connecting\<close>, as is the case until the ids wrap.
\<close>

lemma start_connection_variant:
  assumes "k = m_connection_index s" and "map_find k (m_connecting s) = None"
    and "v = (if ProxyIsSet conn then Proxy else if IsDNS conn then DNS else Direct)"
    and "c = (if v = DNS then (new_connection DNS conn)\<lparr>m_request := True\<rparr>
              else new_connection v conn)"
    and "\<not> (IsDNS conn \<and> doResolve conn = RESOLVE_ONLY \<and> ProxyIsSet conn)"
  shows "\<exists>s'. StartConnection conn env s = Inr s'
       \<and> (IsDNS conn \<and> doResolve conn = RESOLVE_ONLY \<longrightarrow>
            m_dns_resolves s' = map_emplace k conn (m_dns_resolves s)
            \<and> m_connecting s' = m_connecting s
            \<and> history s' = history s @ [Allocated k, Call k Call_Resolve]
            \<and> (map_find k (m_dns_resolves s) = None \<longrightarrow>
                  map_find k (m_dns_resolves s') = Some conn))
       \<and> (\<not> (IsDNS conn \<and> doResolve conn = RESOLVE_ONLY) \<longrightarrow>
            m_connecting s' = map_emplace k c (m_connecting s)
            \<and> map_find k (m_connecting s') = Some c
            \<and> m_dns_resolves s' = m_dns_resolves s
            \<and> history s' = history s @ [Allocated k, Call k Call_Connect])"
  using assms
  by (auto simp add: StartConnection_fresh next_id_def invoke_def map_find_emplace)

text \<open>
  C2. A DNS name with \<open>RESOLVE_ONLY\<close> and a proxy falls into the branch of
  \<open>StartConnection\<close> that is marked \<open>TODO\<close>: an id is taken, and no object is created
  or stored in \<open>m_connecting\<close> or \<open>m_dns_resolves\<close>, and neither \<open>Connect\<close> nor
  \<open>Resolve\<close> is called.
\<close>

theorem start_connection_resolve_only_proxy:
  "IsDNS proxy_resolve_dest \<and> doResolve proxy_resolve_dest = RESOLVE_ONLY
   \<and> ProxyIsSet proxy_resolve_dest
   \<and> run todo_example CConnectionHandlerInt = Inr (state_after todo_example)
   \<and> m_connecting (state_after todo_example) = []
   \<and> m_dns_resolves (state_after todo_example) = []
   \<and> history (state_after todo_example)
       = history (state_after [Cmd_Start 8]) @ [Allocated 0]
   \<and> callbacks_of (history (state_after todo_example)) = [CB_OnStartup]"
  by (simp add: todo_example_def proxy_resolve_dest_def handler_defs)


subsection \<open>Failures\<close>

lemma OnConnectionFailure_found:
  assumes "map_find k (m_connecting s) = Some ptr"
  shows "\<exists>s'. OnConnectionFailure k type err failed retry s = Inr s'
           \<and> callbacks_of (history s')
                = callbacks_of (history s)
                  @ [failure_callback type failed (retry \<and> \<not> m_shutdown s)]
           \<and> m_shutdown s' = m_shutdown s
           \<and> m_connecting s'
                = (if retry \<and> \<not> m_shutdown s
                   then map_emplace (m_connection_index s) ptr (map_erase k (m_connecting s))
                   else map_erase k (m_connecting s))"
  using assms
  by (simp add: OnConnectionFailure_def Let_def emit_def next_id_def invoke_def
        request_active_def activate_request_def callbacks_of_append)

lemma deliver_failure:
  assumes "map_find k (m_connecting s) = Some c"
  shows "\<exists>s'. deliver k (Inr (c', ReportFailure type err failed retry)) s = Inr s'
           \<and> callbacks_of (history s')
                = callbacks_of (history s)
                  @ [failure_callback type failed (retry \<and> \<not> m_shutdown s)]
           \<and> m_shutdown s' = m_shutdown s
           \<and> m_connecting s'
                = (if retry \<and> \<not> m_shutdown s
                   then map_emplace (m_connection_index s) c' (map_erase k (map_assign k c' (m_connecting s)))
                   else map_erase k (map_assign k c' (m_connecting s)))"
proof -
  let ?s1 = "s\<lparr>m_connecting := map_assign k c' (m_connecting s)\<rparr>"
  have f: "map_find k (m_connecting ?s1) = Some c'"
    using assms by (simp add: map_find_assign)
  from OnConnectionFailure_found [OF f, of type err failed retry]
  obtain s' where a: "OnConnectionFailure k type err failed retry ?s1 = Inr s'"
    and b: "callbacks_of (history s')
                = callbacks_of (history ?s1)
                  @ [failure_callback type failed (retry \<and> \<not> m_shutdown ?s1)]"
    and c: "m_shutdown s' = m_shutdown ?s1"
    and d: "m_connecting s'
                = (if retry \<and> \<not> m_shutdown ?s1
                   then map_emplace (m_connection_index ?s1) c' (map_erase k (m_connecting ?s1))
                   else map_erase k (m_connecting ?s1))"
    by blast
  have "deliver k (Inr (c', ReportFailure type err failed retry)) s = Inr s'"
    using a by (simp add: deliver_def)
  moreover have "callbacks_of (history s')
                = callbacks_of (history s)
                  @ [failure_callback type failed (retry \<and> \<not> m_shutdown s)]"
    using b by simp
  moreover have "m_shutdown s' = m_shutdown s"
    using c by simp
  moreover have "m_connecting s'
                = (if retry \<and> \<not> m_shutdown s
                   then map_emplace (m_connection_index s) c' (map_erase k (map_assign k c' (m_connecting s)))
                   else map_erase k (map_assign k c' (m_connecting s)))"
    using d by simp
  ultimately show ?thesis by blast
qed

lemma erase_assign: "map_erase k (map_assign k v m) = map_erase k m"
  by (induction m) (auto simp: map_erase_def map_assign_def)

text \<open>
  C3. When the lookup of a DNS connection fails, the flag delivered with
  \<open>OnDnsFailure\<close> is true if and only if \<open>m_retries\<close> is not zero (positive, or any
  negative value, which stands for unlimited retries) and the handler is not shutting
  down; \<open>m_retries\<close> is decremented exactly when it was greater than zero, so it does
  not pass below zero.
\<close>

theorem dns_resolve_failure_retry:
  assumes "map_find k (m_connecting s) = Some c" and "kind c = DNS"
    and "m_resolved c = []" and "m_iter c = 0" and "\<not> m_bev c"
  shows "\<exists>c' s'. OnResolveFailure_dns err c
                  = Inr (c', ReportFailure RESOLVE_FAILURE err (m_connection c) (m_retries c \<noteq> 0))
           \<and> m_retries c' = (if 0 < sint (m_retries c) then m_retries c - 1 else m_retries c)
           \<and> (0 < sint (m_retries c) \<longrightarrow> sint (m_retries c') = sint (m_retries c) - 1)
           \<and> dispatch (Ev_DnsResolveFailure k err) s = Inr s'
           \<and> callbacks_of (history s')
                = callbacks_of (history s)
                  @ [CB_OnDnsFailure (m_connection c) (m_retries c \<noteq> 0 \<and> \<not> m_shutdown s)]
           \<and> m_connecting s'
                = (if m_retries c \<noteq> 0 \<and> \<not> m_shutdown s
                   then map_emplace (m_connection_index s) c' (map_erase k (m_connecting s))
                   else map_erase k (m_connecting s))"
proof -
  define c' where
    "c' = (if 0 < sint (m_retries c) then c\<lparr>m_request := False, m_retries := m_retries c - 1\<rparr>
           else c\<lparr>m_request := False\<rparr>)"
  have r: "OnResolveFailure_dns err c
             = Inr (c', ReportFailure RESOLVE_FAILURE err (m_connection c) (m_retries c \<noteq> 0))"
    using assms(3,4,5) by (simp add: OnResolveFailure_dns_def at_end_def c'_def Let_def)
  have m: "m_retries c' = (if 0 < sint (m_retries c) then m_retries c - 1 else m_retries c)"
    by (simp add: c'_def)
  have p: "0 < sint (m_retries c) \<longrightarrow> sint (m_retries c') = sint (m_retries c) - 1"
    by (simp add: c'_def sint_pred)
  from deliver_failure [OF assms(1), of c' RESOLVE_FAILURE err "m_connection c" "m_retries c \<noteq> 0"]
  obtain s' where d: "deliver k (Inr (c', ReportFailure RESOLVE_FAILURE err (m_connection c) (m_retries c \<noteq> 0))) s = Inr s'"
    and h: "callbacks_of (history s')
                = callbacks_of (history s)
                  @ [failure_callback RESOLVE_FAILURE (m_connection c) (m_retries c \<noteq> 0 \<and> \<not> m_shutdown s)]"
    and g: "m_connecting s'
                = (if m_retries c \<noteq> 0 \<and> \<not> m_shutdown s
                   then map_emplace (m_connection_index s) c' (map_erase k (map_assign k c' (m_connecting s)))
                   else map_erase k (map_assign k c' (m_connecting s)))"
    by blast
  have "dispatch (Ev_DnsResolveFailure k err) s = Inr s'"
    using assms(1,2) r d by (simp add: on_dns_def lift_def)
  with r m p h g show ?thesis
    by (simp add: failure_callback_def erase_assign)
qed

lemma connecting_dns_pending:
  "m_connecting (state_after (dns_pending_example n))
     = [(0, (new_connection DNS (dns_dest n))\<lparr>m_request := True\<rparr>)]
   \<and> m_shutdown (state_after (dns_pending_example n)) = False
   \<and> m_event_base (state_after (dns_pending_example n)) = True
   \<and> m_connection_index (state_after (dns_pending_example n)) = 1
   \<and> callbacks_of (history (state_after (dns_pending_example n))) = [CB_OnStartup]"
  by (simp add: dns_pending_example_def dns_dest_def handler_defs)

theorem dns_resolve_failure_retry_witness:
  "map_find 0 (m_connecting (state_after (dns_pending_example 2)))
     = Some ((new_connection DNS (dns_dest 2))\<lparr>m_request := True\<rparr>)
   \<and> (\<exists>s'. dispatch (Ev_DnsResolveFailure 0 3) (state_after (dns_pending_example 2)) = Inr s'
          \<and> callbacks_of (history s') = [CB_OnStartup, CB_OnDnsFailure (dns_dest 2) True]
          \<and> m_connecting s' = [(1, (new_connection DNS (dns_dest 2))\<lparr>m_retries := 1\<rparr>)])"
proof -
  let ?c = "(new_connection DNS (dns_dest 2))\<lparr>m_request := True\<rparr>"
  have f: "map_find 0 (m_connecting (state_after (dns_pending_example 2))) = Some ?c"
    by (simp add: connecting_dns_pending map_find_def)
  have k: "kind ?c = DNS" "m_resolved ?c = []" "m_iter ?c = 0" "\<not> m_bev ?c"
    by (simp_all add: new_connection_def)
  have v: "m_retries ?c = 2" "m_connection ?c = dns_dest 2"
    by (simp_all add: new_connection_def dns_dest_def)
  have r: "OnResolveFailure_dns 3 ?c
             = Inr ((new_connection DNS (dns_dest 2))\<lparr>m_retries := 1\<rparr>,
                    ReportFailure RESOLVE_FAILURE 3 (dns_dest 2) True)"
    by (simp add: OnResolveFailure_dns_def at_end_def new_connection_def dns_dest_def Let_def)
  from dns_resolve_failure_retry [OF f k, of 3]
  show ?thesis
    using f r
    by (auto simp add: v connecting_dns_pending map_erase_def map_emplace_def map_find_def)
qed

theorem dns_negative_retries_counterexample:
  "map_find 0 (m_connecting (state_after (dns_pending_example (- 2))))
     = Some ((new_connection DNS (dns_dest (- 2)))\<lparr>m_request := True\<rparr>)
   \<and> m_retries ((new_connection DNS (dns_dest (- 2)))\<lparr>m_request := True\<rparr>) = - 2
   \<and> \<not> m_shutdown (state_after (dns_pending_example (- 2)))
   \<and> \<not> (0 < sint (- 2 :: cint) \<or> (- 2 :: cint) = - 1)
   \<and> callbacks_of (history (state_after
        (dns_pending_example (- 2) @ [Cmd_PumpEvents False [Ev_DnsResolveFailure 0 3]])))
       = [CB_OnStartup, CB_OnDnsFailure (dns_dest (- 2)) True]"
  by (simp add: dns_pending_example_def dns_dest_def handler_defs
        OnResolveFailure_dns_def callbacks_of_append Let_def)





section \<open>Allocation of ids\<close>

lemma alloc_inv_iff:
  "alloc_inv s \<longleftrightarrow>
     (\<exists>n. allocated_ids (history s) = map word_of_nat [0..<n]
          \<and> m_connection_index s = word_of_nat n)"
  by (auto simp add: alloc_inv_def)

lemma alloc_inv_frame:
  assumes "alloc_inv s"
    and "m_connection_index s' = m_connection_index s"
    and "allocated_ids (history s') = allocated_ids (history s)"
  shows "alloc_inv s'"
  using assms by (simp add: alloc_inv_def)

lemma alloc_inv_next_id:
  assumes "alloc_inv s"
    and "m_connection_index s' = m_connection_index s + 1"
    and "allocated_ids (history s') = allocated_ids (history s) @ [m_connection_index s]"
  shows "alloc_inv s'"
proof -
  from assms(1) obtain n where a: "allocated_ids (history s) = map word_of_nat [0..<n]"
    and i: "m_connection_index s = word_of_nat n"
    by (auto simp add: alloc_inv_iff)
  have "allocated_ids (history s') = map word_of_nat [0..<Suc n]"
    using a i assms(3) by simp
  moreover have "m_connection_index s' = word_of_nat (Suc n)"
    using i assms(2) by simp
  ultimately show ?thesis unfolding alloc_inv_iff by blast
qed

lemmas prim_defs = emit_def invoke_def next_id_def request_active_def activate_request_def

lemma disconnect_all_frame:
  "m_connection_index (disconnect_all m s) = m_connection_index s
   \<and> m_connected (disconnect_all m s) = m_connected s
   \<and> m_connecting (disconnect_all m s) = m_connecting s
   \<and> m_binds (disconnect_all m s) = m_binds s
   \<and> m_dns_resolves (disconnect_all m s) = m_dns_resolves s
   \<and> m_shutdown (disconnect_all m s) = m_shutdown s
   \<and> m_event_base (disconnect_all m s) = m_event_base s
   \<and> allocated_ids (history (disconnect_all m s)) = allocated_ids (history s)
   \<and> announced (history (disconnect_all m s)) = announced (history s)"
  by (induction m s rule: disconnect_all.induct)
     (simp_all add: emit_def allocated_ids_append announced_append)

lemma fail_connecting_frame:
  "m_connection_index (fail_connecting m s) = m_connection_index s
   \<and> m_connected (fail_connecting m s) = m_connected s
   \<and> m_connecting (fail_connecting m s) = (if m = [] then m_connecting s else [])
   \<and> m_binds (fail_connecting m s) = m_binds s
   \<and> m_dns_resolves (fail_connecting m s) = m_dns_resolves s
   \<and> m_shutdown (fail_connecting m s) = m_shutdown s
   \<and> m_event_base (fail_connecting m s) = m_event_base s
   \<and> m_outgoing_conn_count (fail_connecting m s) = m_outgoing_conn_count s
   \<and> m_incoming_conn_count (fail_connecting m s) = m_incoming_conn_count s
   \<and> allocated_ids (history (fail_connecting m s)) = allocated_ids (history s)
   \<and> announced (history (fail_connecting m s)) = announced (history s)"
  by (induction m s rule: fail_connecting.induct)
     (simp_all add: emit_def allocated_ids_append announced_append)

lemma alloc_inv_ShutdownInt: "alloc_inv s \<Longrightarrow> ShutdownInt s = Inr s' \<Longrightarrow> alloc_inv s'"
  by (erule alloc_inv_frame)
     (auto simp add: ShutdownInt_def Let_def disconnect_all_frame fail_connecting_frame
        split: if_splits)

lemma alloc_inv_OnListenFailure: "alloc_inv s \<Longrightarrow> alloc_inv (OnListenFailure k bind s)"
  by (erule alloc_inv_frame)
     (simp_all add: OnListenFailure_def prim_defs Let_def allocated_ids_append)

lemma alloc_inv_OnOutgoingConnected:
  "alloc_inv s \<Longrightarrow> OnOutgoingConnected k conn resolved s = Inr s' \<Longrightarrow> alloc_inv s'"
  by (erule alloc_inv_frame)
     (auto simp add: OnOutgoingConnected_def prim_defs Let_def allocated_ids_append
        split: option.splits)

lemma alloc_inv_OnIncomingConnected:
  "alloc_inv s \<Longrightarrow> OnIncomingConnected k conn resolved accept s = Inr s' \<Longrightarrow> alloc_inv s'"
  by (erule alloc_inv_frame)
     (auto simp add: OnIncomingConnected_def prim_defs Let_def allocated_ids_append
        split: option.splits if_splits)

lemma alloc_inv_OnConnectionFailure:
  assumes "alloc_inv s" and "OnConnectionFailure k type err failed retry s = Inr s'"
  shows "alloc_inv s'"
proof (cases "retry \<and> \<not> m_shutdown s")
  case True
  with assms show ?thesis
    by (elim alloc_inv_next_id)
       (auto simp add: OnConnectionFailure_def prim_defs Let_def allocated_ids_append
          split: option.splits)
next
  case False
  with assms show ?thesis
    by (elim alloc_inv_frame)
       (auto simp add: OnConnectionFailure_def prim_defs Let_def allocated_ids_append
          split: option.splits)
qed

lemma alloc_inv_OnDisconnected:
  assumes "alloc_inv s" and "OnDisconnected k reconnect s = Inr s'"
  shows "alloc_inv s'"
proof (cases "reconnect \<and> \<not> m_shutdown s")
  case True
  with assms show ?thesis
    by (elim alloc_inv_next_id)
       (auto simp add: OnDisconnected_def prim_defs Let_def allocated_ids_append
          split: option.splits)
next
  case False
  with assms show ?thesis
    by (elim alloc_inv_frame)
       (auto simp add: OnDisconnected_def prim_defs Let_def allocated_ids_append
          split: option.splits)
qed

lemma alloc_inv_OnResolveFailure:
  "alloc_inv s \<Longrightarrow> OnResolveFailure k conn err retry s = Inr s' \<Longrightarrow> alloc_inv s'"
  by (erule alloc_inv_frame)
     (auto simp add: OnResolveFailure_def prim_defs Let_def allocated_ids_append
        split: option.splits if_splits)

lemma alloc_inv_deliver:
  assumes "alloc_inv s" and "deliver k r s = Inr s'"
  shows "alloc_inv s'"
proof (cases r)
  case (Inl e)
  with assms show ?thesis by (simp add: deliver_def)
next
  case (Inr p)
  obtain c' out where p: "p = (c', out)" by (cases p)
  let ?s1 = "s\<lparr>m_connecting := map_assign k c' (m_connecting s)\<rparr>"
  have a1: "alloc_inv ?s1"
    using assms(1) by (rule alloc_inv_frame) simp_all
  show ?thesis
  proof (cases out)
    case StartedResolve
    with assms Inr p a1 show ?thesis by (simp add: deliver_def)
  next
    case (StartedConnect a)
    with assms Inr p a1 show ?thesis by (simp add: deliver_def)
  next
    case (ReportFailure type err failed retry)
    with assms Inr p have "OnConnectionFailure k type err failed retry ?s1 = Inr s'"
      by (simp add: deliver_def)
    with a1 show ?thesis by (rule alloc_inv_OnConnectionFailure)
  next
    case (ReportConnected resolved)
    with assms Inr p have "OnOutgoingConnected k (m_connection c') resolved ?s1 = Inr s'"
      by (simp add: deliver_def)
    with a1 show ?thesis by (rule alloc_inv_OnOutgoingConnected)
  qed
qed

lemma liftD: "lift r = Inr s' \<Longrightarrow> r = Inr s'"
  by (cases r) (simp_all add: lift_def)

lemma alloc_inv_call_Connect:
  assumes "alloc_inv s" and "call_Connect k env s = Inr s'"
  shows "alloc_inv s'"
proof (cases "map_find k (m_connecting s)")
  case None
  with assms show ?thesis by (simp add: call_Connect_def CIncomingConn_Connect_def CDirectConnection_Connect_def
          CProxyConn_Connect_def)
next
  case (Some c)
  show ?thesis
  proof (cases "kind c")
    case Direct
    with assms Some show ?thesis by (simp add: call_Connect_def CIncomingConn_Connect_def CDirectConnection_Connect_def
          CProxyConn_Connect_def)
  next
    case DNS
    with assms(2) Some have "deliver k (Connect (bev_created env) c) s = Inr s'"
      by (simp add: call_Connect_def CIncomingConn_Connect_def CDirectConnection_Connect_def
          CProxyConn_Connect_def)
    with assms(1) show ?thesis by (rule alloc_inv_deliver)
  next
    case Proxy
    with assms Some show ?thesis by (simp add: call_Connect_def CIncomingConn_Connect_def CDirectConnection_Connect_def
          CProxyConn_Connect_def)
  next
    case Incoming
    with assms(2) Some
    have "OnIncomingConnected k (m_connection c)
            (resolved_connection (m_connection c) (m_addr c)) (incoming_accepted env) s = Inr s'"
      by (simp add: call_Connect_def CIncomingConn_Connect_def CDirectConnection_Connect_def
          CProxyConn_Connect_def)
    with assms(1) show ?thesis by (rule alloc_inv_OnIncomingConnected)
  qed
qed

lemma alloc_inv_StartConnection:
  assumes "alloc_inv s" and "StartConnection conn env s = Inr s'"
  shows "alloc_inv s'"
proof (cases "IsDNS conn \<and> doResolve conn = RESOLVE_ONLY")
  case True
  with assms(2) show ?thesis
    by (intro alloc_inv_next_id [OF assms(1)])
       (auto simp add: StartConnection_def prim_defs Let_def allocated_ids_append
          split: if_splits)
next
  case False
  define ptr where
    "ptr = (if ProxyIsSet conn then new_connection Proxy conn
            else if IsDNS conn then new_connection DNS conn
            else new_connection Direct conn)"
  define s2 where
    "s2 = invoke (m_connection_index s) Call_Connect
            ((snd (next_id s))
               \<lparr>m_connecting := map_emplace (m_connection_index s) ptr (m_connecting s)\<rparr>)"
  have a2: "alloc_inv s2"
    by (rule alloc_inv_next_id [OF assms(1)])
       (simp_all add: s2_def prim_defs allocated_ids_append)
  have "call_Connect (m_connection_index s) env s2 = Inr s'"
    using assms(2) False
    by (simp add: StartConnection_def Let_def next_id_def s2_def ptr_def)
  with a2 show ?thesis by (rule alloc_inv_call_Connect)
qed

lemma alloc_inv_start_each:
  "alloc_inv s \<Longrightarrow> start_each cs env s = Inr s' \<Longrightarrow> alloc_inv s'"
proof (induction cs arbitrary: s)
  case Nil
  then show ?case by simp
next
  case (Cons c cs)
  show ?case
  proof (cases "IsSet c")
    case True
    with Cons.prems(2) obtain s1 where a: "StartConnection c env s = Inr s1"
      and b: "start_each cs env s1 = Inr s'"
      by (auto split: sum.splits)
    from alloc_inv_StartConnection [OF Cons.prems(1) a] b show ?thesis
      by (rule Cons.IH)
  next
    case False
    with Cons.prems(2) have "start_each cs env s = Inr s'" by simp
    with Cons.prems(1) show ?thesis by (rule Cons.IH)
  qed
qed

lemma alloc_inv_RequestOutgoingInt:
  assumes "alloc_inv s" and "RequestOutgoingInt f env s = Inr s'"
  shows "alloc_inv s'"
proof (cases "need_outgoing s > 0")
  case True
  have "alloc_inv (emit (CB_OnNeedOutgoingConnections (need_outgoing s)) s)"
    using assms(1) by (rule alloc_inv_frame) (simp_all add: emit_def allocated_ids_append)
  moreover from assms(2) True
  have "start_each (take (min (length (f (need_outgoing s))) (unat (need_outgoing s)))
                      (f (need_outgoing s))) env
          (emit (CB_OnNeedOutgoingConnections (need_outgoing s)) s) = Inr s'"
    by (simp add: RequestOutgoingInt_def Let_def)
  ultimately show ?thesis by (rule alloc_inv_start_each)
next
  case False
  with assms show ?thesis by (simp add: RequestOutgoingInt_def Let_def)
qed

lemma alloc_inv_OnIncomingConnection:
  assumes "alloc_inv s" and "OnIncomingConnection bind address env s = Inr s'"
  shows "alloc_inv s'"
proof -
  define s2 where
    "s2 = invoke (m_connection_index s) Call_Connect
            ((snd (next_id s))
               \<lparr>m_connecting :=
                  map_emplace (m_connection_index s)
                    (CIncomingConn bind address) (m_connecting s)\<rparr>)"
  have a2: "alloc_inv s2"
    by (rule alloc_inv_next_id [OF assms(1)])
       (simp_all add: s2_def prim_defs allocated_ids_append)
  have "call_Connect (m_connection_index s) env s2 = Inr s'"
    using assms(2) by (simp add: OnIncomingConnection_def CIncomingConn_def Let_def next_id_def s2_def)
  with a2 show ?thesis by (rule alloc_inv_call_Connect)
qed

lemma alloc_inv_on_dns: "alloc_inv s \<Longrightarrow> on_dns k f s = Inr s' \<Longrightarrow> alloc_inv s'"
  by (auto simp add: on_dns_def split: option.splits if_splits
        dest!: liftD elim: alloc_inv_deliver)

lemma alloc_inv_dispatch:
  assumes "alloc_inv s" and "dispatch e s = Inr s'"
  shows "alloc_inv s'"
proof (cases e)
  case (Ev_RequestOutgoing conns env)
  with assms show ?thesis by (auto dest!: liftD elim: alloc_inv_RequestOutgoingInt)
next
  case Ev_Shutdown
  with assms show ?thesis by (auto dest!: liftD elim: alloc_inv_ShutdownInt)
next
  case (Ev_Accept b address env)
  with assms show ?thesis
    by (auto split: option.splits dest!: liftD elim: alloc_inv_OnIncomingConnection)
next
  case (Ev_ListenFailure b)
  with assms show ?thesis
    by (auto simp add: alloc_inv_OnListenFailure split: option.splits)
next
  case (Ev_Connected k resolved)
  with assms show ?thesis
    by (auto split: option.splits if_splits dest!: liftD elim: alloc_inv_OnOutgoingConnected)
next
  case (Ev_Failed k type err failed retry)
  with assms show ?thesis
    by (auto split: option.splits if_splits dest!: liftD elim: alloc_inv_OnConnectionFailure)
next
  case (Ev_Disconnected k reconnect)
  with assms show ?thesis
    by (auto simp add: ConnectionBase_OnDisconnected_def split: option.splits
          dest!: liftD elim: alloc_inv_OnDisconnected)
next
  case (Ev_Reconnect k env)
  with assms show ?thesis
    by (auto split: option.splits dest!: liftD elim: alloc_inv_call_Connect)
next
  case (Ev_DnsResolveFailure k err)
  with assms show ?thesis by (auto elim: alloc_inv_on_dns)
next
  case (Ev_DnsResolveSuccess k response created)
  with assms show ?thesis by (auto elim: alloc_inv_on_dns)
next
  case (Ev_DnsConnectFailure k event)
  with assms show ?thesis by (auto elim: alloc_inv_on_dns)
next
  case (Ev_DnsConnectSuccess k)
  with assms show ?thesis by (auto elim: alloc_inv_on_dns)
next
  case (Ev_ResolveComplete k resolved)
  with assms show ?thesis
    by (auto simp add: OnResolveComplete_def emit_def Let_def allocated_ids_append
          split: option.splits elim!: alloc_inv_frame)
next
  case (Ev_ResolveFailure k err retry)
  with assms show ?thesis
    by (auto split: option.splits dest!: liftD elim: alloc_inv_OnResolveFailure)
next
  case (Ev_ReceiveMessages k msgs totalsize keep)
  with assms show ?thesis
    by (auto simp add: OnReceiveMessages_def emit_def allocated_ids_append
          elim!: alloc_inv_frame)
next
  case (Ev_WriteBufferFull k bufsize)
  with assms show ?thesis
    by (auto simp add: OnWriteBufferFull_def emit_def allocated_ids_append
          elim!: alloc_inv_frame)
next
  case (Ev_WriteBufferReady k bufsize)
  with assms show ?thesis
    by (auto simp add: OnWriteBufferReady_def emit_def allocated_ids_append
          elim!: alloc_inv_frame)
qed

lemma alloc_inv_event_base_loop:
  "alloc_inv s \<Longrightarrow> event_base_loop es s = Inr s' \<Longrightarrow> alloc_inv s'"
proof (induction es arbitrary: s)
  case Nil
  then show ?case by simp
next
  case (Cons e es)
  then show ?case
    by (auto split: sum.splits if_splits dest: alloc_inv_dispatch)
qed

lemma alloc_inv_PumpEvents:
  assumes "alloc_inv s" and "PumpEvents block ready s = Inr (ret, s')"
  shows "alloc_inv s'"
proof -
  have "alloc_inv (emit CB_OnShutdown (s1\<lparr>m_event_base := False\<rparr>))" if "alloc_inv s1" for s1
    using that by (rule alloc_inv_frame) (simp_all add: emit_def allocated_ids_append)
  with assms show ?thesis
    by (auto simp add: PumpEvents_def split: if_splits sum.splits
          dest: alloc_inv_event_base_loop)
qed

lemma alloc_inv_step:
  assumes "alloc_inv s" and "step c s = Inr s'"
  shows "alloc_inv s'"
proof (cases c)
  case (Cmd_Start limit)
  with assms show ?thesis
    by (auto simp add: Start_def Let_def prim_defs allocated_ids_append
          split: if_splits dest!: liftD elim!: alloc_inv_frame)
next
  case (Cmd_PumpEvents block ready)
  with assms show ?thesis
    by (auto split: sum.splits dest: alloc_inv_PumpEvents)
next
  case Cmd_Shutdown
  with assms show ?thesis
    by (auto simp add: Shutdown_def allocated_ids_append elim!: alloc_inv_frame)
next
  case (Cmd_Bind conn ret)
  with assms show ?thesis
    by (auto simp add: Bind_def prim_defs Let_def allocated_ids_append
          elim!: alloc_inv_next_id)
next
  case (Cmd_StartConnection conn env)
  with assms show ?thesis by (auto dest!: liftD elim: alloc_inv_StartConnection)
next
  case (Cmd_CloseConnection k immediately)
  with assms show ?thesis
    by (auto simp add: CloseConnection_def invoke_def allocated_ids_append
          split: option.splits elim!: alloc_inv_frame)
next
  case (Cmd_PauseRecv k)
  with assms show ?thesis
    by (auto simp add: PauseRecv_def invoke_def allocated_ids_append
          split: option.splits elim!: alloc_inv_frame)
next
  case (Cmd_UnpauseRecv k)
  with assms show ?thesis
    by (auto simp add: UnpauseRecv_def invoke_def allocated_ids_append
          split: option.splits elim!: alloc_inv_frame)
next
  case (Cmd_Send k data written)
  with assms show ?thesis
    by (auto simp add: Send_def invoke_def allocated_ids_append
          split: option.splits elim!: alloc_inv_frame)
next
  case (Cmd_SetRateLimit k limit)
  with assms show ?thesis
    by (auto simp add: SetRateLimit_def invoke_def allocated_ids_append
          split: option.splits elim!: alloc_inv_frame)
qed

lemma alloc_inv_run: "alloc_inv s \<Longrightarrow> run cs s = Inr s' \<Longrightarrow> alloc_inv s'"
  by (induction cs arbitrary: s) (auto split: sum.splits dest: alloc_inv_step)

lemma alloc_inv_init: "alloc_inv CConnectionHandlerInt"
  by (simp add: alloc_inv_def CConnectionHandlerInt_def)


lemma word_of_nat_less:
  assumes "i < j" and "j < 2 ^ 32"
  shows "(word_of_nat i :: 32 word) < word_of_nat j"
proof -
  have "unat (word_of_nat i :: 32 word) = i" "unat (word_of_nat j :: 32 word) = j"
    using assms by (simp_all add: unsigned_of_nat take_bit_nat_eq_self)
  with assms(1) show ?thesis by (simp add: word_less_nat_alt)
qed

lemma sorted_word_of_nat_upt:
  "n \<le> 2 ^ 32 \<Longrightarrow> sorted_wrt (<) (map (word_of_nat :: nat \<Rightarrow> 32 word) [0..<n])"
  by (simp add: sorted_wrt_map sorted_wrt_iff_nth_less word_of_nat_less)

lemma allocated_ids_map_Allocated: "allocated_ids (map (\<lambda>i. Allocated (f i)) xs) = map f xs"
  by (induction xs) simp_all

lemma run_failed_binds:
  "run (replicate n (Cmd_Bind d False)) s
     = Inr (s\<lparr>m_connection_index := m_connection_index s + word_of_nat n,
              history := history s
                @ map (\<lambda>i. Allocated (m_connection_index s + word_of_nat i)) [0..<n]\<rparr>)"
proof (induction n arbitrary: s)
  case 0
  then show ?case by simp
next
  case (Suc n)
  have m: "map (\<lambda>i. Allocated (m_connection_index s + word_of_nat i)) [0..<Suc n]
             = Allocated (m_connection_index s)
               # map (\<lambda>i. Allocated (m_connection_index s + 1 + word_of_nat i)) [0..<n]"
    by (simp only: map_upt_Suc) (simp add: add.assoc)
  have b: "step (Cmd_Bind d False) s
             = Inr (s\<lparr>m_connection_index := m_connection_index s + 1,
                       history := history s @ [Allocated (m_connection_index s)]\<rparr>)"
    by (simp add: Bind_def next_id_def)
  show ?case
    by (simp only: replicate_Suc run.simps b sum.case Suc.IH m)
       (simp add: add.assoc)
qed

text \<open>
  C6. A \<open>ConnID\<close> is an \<open>unsigned int\<close>, 32 bits wide. All ids, for connections,
  listeners and resolves, come from the one counter, so the ids allocated since
  construction are \<open>0, 1, 2, ...\<close> modulo \<open>2 ^ 32\<close>. While at most \<open>2 ^ 32\<close> ids have
  been allocated they are distinct and strictly increasing in allocation order, and
  while fewer have been, the counter is above all of them. The retry of a connection
  (after a disconnect or a connection failure, also one that a DNS connection reports)
  takes the counter's value as the fresh id. The retry of a resolve-only lookup
  allocates no id: the lookup stays in \<open>m_dns_resolves\<close> under the id it has.
\<close>

theorem ids_increase_until_wrap:
  assumes "run cs CConnectionHandlerInt = Inr s"
    and "n = length (allocated_ids (history s))"
  shows "allocated_ids (history s) = map word_of_nat [0..<n]
       \<and> m_connection_index s = word_of_nat n
       \<and> (n \<le> 2 ^ 32 \<longrightarrow>
            sorted_wrt (<) (allocated_ids (history s))
            \<and> distinct (allocated_ids (history s)))
       \<and> (n < 2 ^ 32 \<longrightarrow>
            list_all (\<lambda>k. k < m_connection_index s) (allocated_ids (history s)))
       \<and> (\<forall>k s'. OnDisconnected k True s = Inr s' \<and> \<not> m_shutdown s \<longrightarrow>
              allocated_ids (history s')
                = allocated_ids (history s) @ [m_connection_index s]
              \<and> last (history s')
                  = Call (m_connection_index s) (Call_Retry (m_connection_index s)))
       \<and> (\<forall>k type err failed s'.
              OnConnectionFailure k type err failed True s = Inr s' \<and> \<not> m_shutdown s \<longrightarrow>
              allocated_ids (history s')
                = allocated_ids (history s) @ [m_connection_index s]
              \<and> last (history s')
                  = Call (m_connection_index s) (Call_Retry (m_connection_index s)))
       \<and> (\<forall>k c type err failed s'.
              deliver k (Inr (c, ReportFailure type err failed True)) s = Inr s'
              \<and> \<not> m_shutdown s \<longrightarrow>
              allocated_ids (history s')
                = allocated_ids (history s) @ [m_connection_index s]
              \<and> last (history s')
                  = Call (m_connection_index s) (Call_Retry (m_connection_index s)))
       \<and> (\<forall>k conn err s'.
              OnResolveFailure k conn err True s = Inr s' \<and> \<not> m_shutdown s \<longrightarrow>
              allocated_ids (history s') = allocated_ids (history s)
              \<and> m_connection_index s' = m_connection_index s
              \<and> m_dns_resolves s' = m_dns_resolves s
              \<and> map_find k (m_dns_resolves s') \<noteq> None
              \<and> Call k Call_RetryResolve \<in> set (history s'))"
proof -
  have inv: "alloc_inv s"
    using alloc_inv_init assms(1) by (rule alloc_inv_run)
  then have a: "allocated_ids (history s) = map word_of_nat [0..<n]"
    and i: "m_connection_index s = word_of_nat n"
    using assms(2) by (simp_all add: alloc_inv_def)
  have srt: "sorted_wrt (<) (allocated_ids (history s))" if "n \<le> 2 ^ 32"
    using that by (simp only: a sorted_word_of_nat_upt)
  then have dst: "distinct (allocated_ids (history s))" if "n \<le> 2 ^ 32"
    using that by (simp add: strict_sorted_iff)
  have below: "list_all (\<lambda>k. k < m_connection_index s) (allocated_ids (history s))"
    if "n < 2 ^ 32"
    using that by (simp add: a i list_all_iff word_of_nat_less)
  have d: "allocated_ids (history s') = allocated_ids (history s) @ [m_connection_index s]
           \<and> last (history s') = Call (m_connection_index s) (Call_Retry (m_connection_index s))"
    if "OnDisconnected k True s = Inr s'" "\<not> m_shutdown s" for k s'
    using that
    by (auto simp add: OnDisconnected_def Let_def prim_defs allocated_ids_append
          split: option.splits)
  have f: "allocated_ids (history s') = allocated_ids (history s) @ [m_connection_index s]
           \<and> last (history s') = Call (m_connection_index s) (Call_Retry (m_connection_index s))"
    if "OnConnectionFailure k type err failed True s = Inr s'" "\<not> m_shutdown s"
    for k type err failed s'
    using that
    by (auto simp add: OnConnectionFailure_def Let_def prim_defs allocated_ids_append
          split: option.splits)
  have r: "allocated_ids (history s') = allocated_ids (history s)
           \<and> m_connection_index s' = m_connection_index s
           \<and> m_dns_resolves s' = m_dns_resolves s
           \<and> map_find k (m_dns_resolves s') \<noteq> None
           \<and> Call k Call_RetryResolve \<in> set (history s')"
    if "OnResolveFailure k conn err True s = Inr s'" "\<not> m_shutdown s" for k conn err s'
    using that
    by (auto simp add: OnResolveFailure_def Let_def prim_defs allocated_ids_append
          split: option.splits)
  have g: "allocated_ids (history s') = allocated_ids (history s) @ [m_connection_index s]
           \<and> last (history s') = Call (m_connection_index s) (Call_Retry (m_connection_index s))"
    if "deliver k (Inr (c, ReportFailure type err failed True)) s = Inr s'" "\<not> m_shutdown s"
    for k c type err failed s'
    using that
    by (auto simp add: deliver_def OnConnectionFailure_def Let_def prim_defs
          allocated_ids_append split: option.splits)
  from a i srt dst below d f g r show ?thesis by blast
qed


lemma run_retry_example:
  "run retry_example CConnectionHandlerInt = Inr (state_after retry_example)"
  by (simp add: retry_example_def direct_dest_def handler_defs)

lemma allocated_retry_example:
  "allocated_ids (history (state_after retry_example)) = [0, 1]
   \<and> m_connection_index (state_after retry_example) = 2
   \<and> m_connecting (state_after retry_example) = [(1, new_connection Direct direct_dest)]"
  by (simp add: retry_example_def direct_dest_def handler_defs)

theorem ids_increase_until_wrap_witness:
  "run retry_example CConnectionHandlerInt = Inr (state_after retry_example)
   \<and> (2::nat) = length (allocated_ids (history (state_after retry_example)))
   \<and> allocated_ids (history (state_after retry_example)) = [0, 1]
   \<and> m_connection_index (state_after retry_example) = 2
   \<and> sorted_wrt (<) (allocated_ids (history (state_after retry_example)))
   \<and> distinct (allocated_ids (history (state_after retry_example)))
   \<and> list_all (\<lambda>k. k < m_connection_index (state_after retry_example))
        (allocated_ids (history (state_after retry_example)))"
proof -
  have l: "(2::nat) = length (allocated_ids (history (state_after retry_example)))"
    by (simp add: allocated_retry_example)
  from ids_increase_until_wrap [OF run_retry_example l]
  show ?thesis
    using run_retry_example l by (simp add: allocated_retry_example)
qed

theorem id_wraparound_counterexample:
  "run wrap_example CConnectionHandlerInt = Inr (state_after wrap_example)
   \<and> length (allocated_ids (history (state_after wrap_example))) = 2 ^ 32 + 1
   \<and> allocated_ids (history (state_after wrap_example)) ! 0 = 0
   \<and> allocated_ids (history (state_after wrap_example)) ! (2 ^ 32 - 1) = 4294967295
   \<and> allocated_ids (history (state_after wrap_example)) ! (2 ^ 32) = 0
   \<and> run resolve_retry_example CConnectionHandlerInt = Inr (state_after resolve_retry_example)
   \<and> callbacks_of (history (state_after resolve_retry_example))
       = [CB_OnStartup, CB_OnDnsFailure resolve_only_dest True]
   \<and> last (history (state_after resolve_retry_example)) = RequestActivated
   \<and> last (butlast (history (state_after resolve_retry_example))) = Call 0 Call_RetryResolve
   \<and> allocated_ids (history (state_after resolve_retry_example)) = [0]
   \<and> m_dns_resolves (state_after resolve_retry_example) = [(0, resolve_only_dest)]"
proof -
  define N :: nat where "N = 2 ^ 32 + 1"
  define X where
    "X = CConnectionHandlerInt
           \<lparr>m_connection_index := m_connection_index CConnectionHandlerInt + word_of_nat N,
            history := history CConnectionHandlerInt
              @ map (\<lambda>i. Allocated (m_connection_index CConnectionHandlerInt + word_of_nat i))
                  [0..<N]\<rparr>"
  have w: "wrap_example = replicate N (Cmd_Bind bind_dest False)"
    by (simp only: wrap_example_def N_def)
  have r: "run wrap_example CConnectionHandlerInt = Inr X"
    unfolding w X_def by (rule run_failed_binds)
  have sa: "state_after wrap_example = X"
    by (simp only: state_after_def r sum.case)
  have h: "history X = map (\<lambda>i. Allocated (word_of_nat i)) [0..<N]"
    by (simp add: X_def CConnectionHandlerInt_def)
  have al: "allocated_ids (history X) = map word_of_nat [0..<N]"
    by (simp only: h allocated_ids_map_Allocated)
  have len: "length (allocated_ids (history X)) = N"
    by (simp only: al length_map length_upt diff_zero)
  have nth: "allocated_ids (history X) ! i = word_of_nat i" if "i < N" for i
    using that by (simp only: al) simp
  have i0: "(0::nat) < N" and i1: "(2::nat) ^ 32 - 1 < N" and i2: "(2::nat) ^ 32 < N"
    by (simp_all add: N_def)
  have v1: "(word_of_nat (2 ^ 32 - 1) :: 32 word) = 4294967295" by simp
  have v2: "(word_of_nat (2 ^ 32) :: 32 word) = 0" by simp
  have wrap: "run wrap_example CConnectionHandlerInt = Inr (state_after wrap_example)
   \<and> length (allocated_ids (history (state_after wrap_example))) = 2 ^ 32 + 1
   \<and> allocated_ids (history (state_after wrap_example)) ! 0 = 0
   \<and> allocated_ids (history (state_after wrap_example)) ! (2 ^ 32 - 1) = 4294967295
   \<and> allocated_ids (history (state_after wrap_example)) ! (2 ^ 32) = 0"
    using r len nth [OF i0] nth [OF i1] nth [OF i2] v1 v2
    by (simp only: sa N_def) simp
  have retry: "run resolve_retry_example CConnectionHandlerInt
                 = Inr (state_after resolve_retry_example)
   \<and> callbacks_of (history (state_after resolve_retry_example))
       = [CB_OnStartup, CB_OnDnsFailure resolve_only_dest True]
   \<and> last (history (state_after resolve_retry_example)) = RequestActivated
   \<and> last (butlast (history (state_after resolve_retry_example))) = Call 0 Call_RetryResolve
   \<and> allocated_ids (history (state_after resolve_retry_example)) = [0]
   \<and> m_dns_resolves (state_after resolve_retry_example) = [(0, resolve_only_dest)]"
    by (simp add: resolve_retry_example_def resolve_only_dest_def handler_defs
          OnResolveFailure_def Let_def)
  from wrap retry show ?thesis by (simp only: simp_thms)
qed


section \<open>Order of callbacks\<close>

lemma ready_preceded_append:
  "ready_preceded seen (xs @ ys)
     \<longleftrightarrow> ready_preceded seen xs \<and> ready_preceded (rev (announced xs) @ seen) ys"
  by (induction seen xs rule: ready_preceded.induct) simp_all

lemma ready_preceded_mono:
  "ready_preceded seen xs \<Longrightarrow> set seen \<subseteq> set seen' \<Longrightarrow> ready_preceded seen' xs"
proof (induction seen xs arbitrary: seen' rule: ready_preceded.induct)
  case (2 seen k conn resolved ob evs)
  from "2.prems" have "ready_preceded (k # seen) evs" "set (k # seen) \<subseteq> set (k # seen')"
    by auto
  then have "ready_preceded (k # seen') evs" by (rule "2.IH")
  then show ?case by simp
qed auto

lemma in_map_emplaceD: "p \<in> set (map_emplace k v m) \<Longrightarrow> p = (k, v) \<or> p \<in> set m"
  using set_map_emplace_subset [of k v m] by auto

lemma in_map_eraseD: "p \<in> set (map_erase k m) \<Longrightarrow> p \<in> set m"
  by (simp add: set_map_erase)

lemmas order_simps =
  order_inv_def Let_def prim_defs ready_preceded_append announced_append list_all_iff

lemma order_inv_history:
  assumes "order_inv s"
    and "m_connected s' = m_connected s"
    and "history s' = history s @ new"
    and "ready_preceded [] new"
  shows "order_inv s'"
proof -
  have "ready_preceded (rev (announced (history s))) new"
    using assms(4) by (rule ready_preceded_mono) simp
  with assms(1,2,3) show ?thesis
    by (auto simp add: order_inv_def ready_preceded_append announced_append list_all_iff)
qed

lemma disconnect_all_ready:
  "ready_preceded seen (history (disconnect_all m s)) = ready_preceded seen (history s)"
  by (induction m s rule: disconnect_all.induct)
     (simp_all add: emit_def ready_preceded_append)

lemma fail_connecting_ready:
  "ready_preceded seen (history (fail_connecting m s)) = ready_preceded seen (history s)"
  by (induction m s rule: fail_connecting.induct)
     (simp_all add: emit_def ready_preceded_append)

lemma order_inv_ShutdownInt: "order_inv s \<Longrightarrow> ShutdownInt s = Inr s' \<Longrightarrow> order_inv s'"
  by (auto simp add: ShutdownInt_def order_inv_def Let_def disconnect_all_frame
        fail_connecting_frame disconnect_all_ready fail_connecting_ready split: if_splits)

lemma order_inv_OnListenFailure: "order_inv s \<Longrightarrow> order_inv (OnListenFailure k bind s)"
  by (auto simp add: OnListenFailure_def order_simps)

lemma order_inv_OnOutgoingConnected:
  "order_inv s \<Longrightarrow> OnOutgoingConnected k conn resolved s = Inr s' \<Longrightarrow> order_inv s'"
  by (auto simp add: OnOutgoingConnected_def order_simps split: option.splits
        dest!: in_map_emplaceD)

lemma order_inv_OnIncomingConnected:
  "order_inv s \<Longrightarrow> map_find k (m_connecting s) = Some c \<Longrightarrow> \<not> IsOutgoing c \<Longrightarrow>
     OnIncomingConnected k conn resolved accept s = Inr s' \<Longrightarrow> order_inv s'"
  by (auto simp add: OnIncomingConnected_def order_simps split: option.splits if_splits
        dest!: in_map_emplaceD)

lemma order_inv_OnConnectionFailure:
  "order_inv s \<Longrightarrow> OnConnectionFailure k type err failed retry s = Inr s' \<Longrightarrow> order_inv s'"
  by (auto simp add: OnConnectionFailure_def failure_callback_def order_simps
        split: option.splits if_splits)

lemma order_inv_OnDisconnected:
  "order_inv s \<Longrightarrow> OnDisconnected k reconnect s = Inr s' \<Longrightarrow> order_inv s'"
  by (auto simp add: OnDisconnected_def order_simps split: option.splits if_splits
        dest!: in_map_eraseD)

lemma order_inv_OnResolveFailure:
  "order_inv s \<Longrightarrow> OnResolveFailure k conn err retry s = Inr s' \<Longrightarrow> order_inv s'"
  by (auto simp add: OnResolveFailure_def order_simps split: option.splits if_splits)

lemma order_inv_deliver:
  assumes "order_inv s" and "deliver k r s = Inr s'"
  shows "order_inv s'"
proof (cases r)
  case (Inl e)
  with assms show ?thesis by (simp add: deliver_def)
next
  case (Inr p)
  obtain c' out where p: "p = (c', out)" by (cases p)
  let ?s1 = "s\<lparr>m_connecting := map_assign k c' (m_connecting s)\<rparr>"
  have a1: "order_inv ?s1"
    using assms(1) by (simp add: order_inv_def)
  show ?thesis
  proof (cases out)
    case StartedResolve
    with assms Inr p a1 show ?thesis by (simp add: deliver_def)
  next
    case (StartedConnect a)
    with assms Inr p a1 show ?thesis by (simp add: deliver_def)
  next
    case (ReportFailure type err failed retry)
    with assms Inr p have "OnConnectionFailure k type err failed retry ?s1 = Inr s'"
      by (simp add: deliver_def)
    with a1 show ?thesis by (rule order_inv_OnConnectionFailure)
  next
    case (ReportConnected resolved)
    with assms Inr p have "OnOutgoingConnected k (m_connection c') resolved ?s1 = Inr s'"
      by (simp add: deliver_def)
    with a1 show ?thesis by (rule order_inv_OnOutgoingConnected)
  qed
qed

lemma order_inv_call_Connect:
  assumes "order_inv s" and "call_Connect k env s = Inr s'"
  shows "order_inv s'"
proof (cases "map_find k (m_connecting s)")
  case None
  with assms show ?thesis by (simp add: call_Connect_def CIncomingConn_Connect_def CDirectConnection_Connect_def
          CProxyConn_Connect_def)
next
  case (Some c)
  show ?thesis
  proof (cases "kind c")
    case Direct
    with assms Some show ?thesis by (simp add: call_Connect_def CIncomingConn_Connect_def CDirectConnection_Connect_def
          CProxyConn_Connect_def)
  next
    case DNS
    with assms(2) Some have "deliver k (Connect (bev_created env) c) s = Inr s'"
      by (simp add: call_Connect_def CIncomingConn_Connect_def CDirectConnection_Connect_def
          CProxyConn_Connect_def)
    with assms(1) show ?thesis by (rule order_inv_deliver)
  next
    case Proxy
    with assms Some show ?thesis by (simp add: call_Connect_def CIncomingConn_Connect_def CDirectConnection_Connect_def
          CProxyConn_Connect_def)
  next
    case Incoming
    then have n: "\<not> IsOutgoing c" by (simp add: IsOutgoing_def)
    from Incoming assms(2) Some
    have "OnIncomingConnected k (m_connection c)
            (resolved_connection (m_connection c) (m_addr c)) (incoming_accepted env) s = Inr s'"
      by (simp add: call_Connect_def CIncomingConn_Connect_def CDirectConnection_Connect_def
          CProxyConn_Connect_def)
    with assms(1) Some n show ?thesis by (rule order_inv_OnIncomingConnected)
  qed
qed

lemma order_inv_emplaced:
  assumes "order_inv s"
  shows "order_inv (invoke (m_connection_index s) call
                      ((snd (next_id s))\<lparr>m_connecting := m\<rparr>))"
  by (rule order_inv_history [OF assms, where new = "[Allocated (m_connection_index s),
        Call (m_connection_index s) call]"])
     (simp_all add: prim_defs)

lemma order_inv_StartConnection:
  assumes "order_inv s" and "StartConnection conn env s = Inr s'"
  shows "order_inv s'"
proof (cases "IsDNS conn \<and> doResolve conn = RESOLVE_ONLY")
  case True
  with assms show ?thesis
    by (auto simp add: StartConnection_def order_simps split: if_splits)
next
  case False
  define ptr where
    "ptr = (if ProxyIsSet conn then new_connection Proxy conn
            else if IsDNS conn then new_connection DNS conn
            else new_connection Direct conn)"
  define s2 where
    "s2 = invoke (m_connection_index s) Call_Connect
            ((snd (next_id s))
               \<lparr>m_connecting := map_emplace (m_connection_index s) ptr (m_connecting s)\<rparr>)"
  have a2: "order_inv s2"
    unfolding s2_def using assms(1) by (rule order_inv_emplaced)
  have "call_Connect (m_connection_index s) env s2 = Inr s'"
    using assms(2) False
    by (simp add: StartConnection_def Let_def next_id_def s2_def ptr_def)
  with a2 show ?thesis by (rule order_inv_call_Connect)
qed

lemma order_inv_start_each:
  "order_inv s \<Longrightarrow> start_each cs env s = Inr s' \<Longrightarrow> order_inv s'"
proof (induction cs arbitrary: s)
  case Nil
  then show ?case by simp
next
  case (Cons c cs)
  show ?case
  proof (cases "IsSet c")
    case True
    with Cons.prems(2) obtain s1 where a: "StartConnection c env s = Inr s1"
      and b: "start_each cs env s1 = Inr s'"
      by (auto split: sum.splits)
    from order_inv_StartConnection [OF Cons.prems(1) a] b show ?thesis
      by (rule Cons.IH)
  next
    case False
    with Cons.prems(2) have "start_each cs env s = Inr s'" by simp
    with Cons.prems(1) show ?thesis by (rule Cons.IH)
  qed
qed

lemma order_inv_RequestOutgoingInt:
  assumes "order_inv s" and "RequestOutgoingInt f env s = Inr s'"
  shows "order_inv s'"
proof (cases "need_outgoing s > 0")
  case True
  have "order_inv (emit (CB_OnNeedOutgoingConnections (need_outgoing s)) s)"
    using assms(1) by (auto simp add: order_simps)
  moreover from assms(2) True
  have "start_each (take (min (length (f (need_outgoing s))) (unat (need_outgoing s)))
                      (f (need_outgoing s))) env
          (emit (CB_OnNeedOutgoingConnections (need_outgoing s)) s) = Inr s'"
    by (simp add: RequestOutgoingInt_def Let_def)
  ultimately show ?thesis by (rule order_inv_start_each)
next
  case False
  with assms show ?thesis by (simp add: RequestOutgoingInt_def Let_def)
qed

lemma order_inv_OnIncomingConnection:
  assumes "order_inv s" and "OnIncomingConnection bind address env s = Inr s'"
  shows "order_inv s'"
proof -
  define s2 where
    "s2 = invoke (m_connection_index s) Call_Connect
            ((snd (next_id s))
               \<lparr>m_connecting :=
                  map_emplace (m_connection_index s)
                    (CIncomingConn bind address) (m_connecting s)\<rparr>)"
  have a2: "order_inv s2"
    unfolding s2_def using assms(1) by (rule order_inv_emplaced)
  have "call_Connect (m_connection_index s) env s2 = Inr s'"
    using assms(2) by (simp add: OnIncomingConnection_def CIncomingConn_def Let_def next_id_def s2_def)
  with a2 show ?thesis by (rule order_inv_call_Connect)
qed

lemma order_inv_on_dns: "order_inv s \<Longrightarrow> on_dns k f s = Inr s' \<Longrightarrow> order_inv s'"
  by (auto simp add: on_dns_def split: option.splits if_splits
        dest!: liftD elim: order_inv_deliver)

lemma order_inv_dispatch:
  assumes "order_inv s" and "dispatch e s = Inr s'"
  shows "order_inv s'"
proof (cases e)
  case (Ev_RequestOutgoing conns env)
  with assms show ?thesis by (auto dest!: liftD elim: order_inv_RequestOutgoingInt)
next
  case Ev_Shutdown
  with assms show ?thesis by (auto dest!: liftD elim: order_inv_ShutdownInt)
next
  case (Ev_Accept b address env)
  with assms show ?thesis
    by (auto split: option.splits dest!: liftD elim: order_inv_OnIncomingConnection)
next
  case (Ev_ListenFailure b)
  with assms show ?thesis
    by (auto simp add: order_inv_OnListenFailure split: option.splits)
next
  case (Ev_Connected k resolved)
  with assms show ?thesis
    by (auto split: option.splits if_splits dest!: liftD elim: order_inv_OnOutgoingConnected)
next
  case (Ev_Failed k type err failed retry)
  with assms show ?thesis
    by (auto split: option.splits if_splits dest!: liftD elim: order_inv_OnConnectionFailure)
next
  case (Ev_Disconnected k reconnect)
  with assms show ?thesis
    by (auto simp add: ConnectionBase_OnDisconnected_def split: option.splits
          dest!: liftD elim: order_inv_OnDisconnected)
next
  case (Ev_Reconnect k env)
  with assms show ?thesis
    by (auto split: option.splits dest!: liftD elim: order_inv_call_Connect)
next
  case (Ev_DnsResolveFailure k err)
  with assms show ?thesis by (auto elim: order_inv_on_dns)
next
  case (Ev_DnsResolveSuccess k response created)
  with assms show ?thesis by (auto elim: order_inv_on_dns)
next
  case (Ev_DnsConnectFailure k event)
  with assms show ?thesis by (auto elim: order_inv_on_dns)
next
  case (Ev_DnsConnectSuccess k)
  with assms show ?thesis by (auto elim: order_inv_on_dns)
next
  case (Ev_ResolveComplete k resolved)
  with assms show ?thesis
    by (auto simp add: OnResolveComplete_def order_simps split: option.splits)
next
  case (Ev_ResolveFailure k err retry)
  with assms show ?thesis
    by (auto split: option.splits dest!: liftD elim: order_inv_OnResolveFailure)
next
  case (Ev_ReceiveMessages k msgs totalsize keep)
  with assms show ?thesis
    by (auto simp add: OnReceiveMessages_def order_simps)
next
  case (Ev_WriteBufferFull k bufsize)
  with assms show ?thesis
    by (auto simp add: OnWriteBufferFull_def order_simps)
next
  case (Ev_WriteBufferReady k bufsize)
  with assms show ?thesis
    by (auto simp add: OnWriteBufferReady_def order_simps)
qed

lemma order_inv_event_base_loop:
  "order_inv s \<Longrightarrow> event_base_loop es s = Inr s' \<Longrightarrow> order_inv s'"
proof (induction es arbitrary: s)
  case Nil
  then show ?case by simp
next
  case (Cons e es)
  then show ?case
    by (auto split: sum.splits if_splits dest: order_inv_dispatch)
qed

lemma order_inv_PumpEvents:
  assumes "order_inv s" and "PumpEvents block ready s = Inr (ret, s')"
  shows "order_inv s'"
proof -
  have "order_inv (emit CB_OnShutdown (s1\<lparr>m_event_base := False\<rparr>))" if "order_inv s1" for s1
    using that by (auto simp add: order_simps)
  with assms show ?thesis
    by (auto simp add: PumpEvents_def split: if_splits sum.splits
          dest: order_inv_event_base_loop)
qed

lemma order_inv_step:
  assumes "order_inv s" and "step c s = Inr s'"
  shows "order_inv s'"
proof (cases c)
  case (Cmd_Start limit)
  with assms show ?thesis
    by (auto simp add: Start_def order_simps split: if_splits dest!: liftD)
next
  case (Cmd_PumpEvents block ready)
  with assms show ?thesis
    by (auto split: sum.splits dest: order_inv_PumpEvents)
next
  case Cmd_Shutdown
  with assms show ?thesis by (auto simp add: Shutdown_def order_simps)
next
  case (Cmd_Bind conn ret)
  with assms show ?thesis by (cases ret) (auto simp add: Bind_def order_simps)
next
  case (Cmd_StartConnection conn env)
  with assms show ?thesis by (auto dest!: liftD elim: order_inv_StartConnection)
next
  case (Cmd_CloseConnection k immediately)
  with assms show ?thesis
    by (cases immediately) (auto simp add: CloseConnection_def order_simps split: option.splits)
next
  case (Cmd_PauseRecv k)
  with assms show ?thesis by (auto simp add: PauseRecv_def order_simps split: option.splits)
next
  case (Cmd_UnpauseRecv k)
  with assms show ?thesis by (auto simp add: UnpauseRecv_def order_simps split: option.splits)
next
  case (Cmd_Send k data written)
  with assms show ?thesis by (auto simp add: Send_def order_simps split: option.splits)
next
  case (Cmd_SetRateLimit k limit)
  with assms show ?thesis by (auto simp add: SetRateLimit_def order_simps split: option.splits)
qed

lemma order_inv_run: "order_inv s \<Longrightarrow> run cs s = Inr s' \<Longrightarrow> order_inv s'"
  by (induction cs arbitrary: s) (auto split: sum.splits dest: order_inv_step)

lemma order_inv_init: "order_inv CConnectionHandlerInt"
  by (simp add: order_inv_def CConnectionHandlerInt_def)


lemma announced_iff:
  "k \<in> set (announced evs)
     \<longleftrightarrow> (\<exists>conn resolved ob. Callback (CB_OnOutgoingConnection k conn resolved) ob \<in> set evs)"
  by (induction evs rule: announced.induct) auto

lemma ready_preceded_split:
  assumes "ready_preceded [] evs"
    and "evs = pre @ Callback (CB_OnReadyForFirstSend k) ob # post"
  shows "k \<in> set (announced pre)"
  using assms by (simp add: ready_preceded_append)

text \<open>
  C8. \<open>OnOutgoingConnected\<close> delivers \<open>OnOutgoingConnection(id)\<close> and then
  \<open>OnReadyForFirstSend(id)\<close>. In every run, each \<open>OnReadyForFirstSend(id)\<close> in the
  history has an \<open>OnOutgoingConnection(id)\<close> before it, and every outgoing connection
  in \<open>m_connected\<close> has had its \<open>OnOutgoingConnection\<close> delivered.
\<close>

theorem first_send_after_outgoing_connection:
  assumes "run cs CConnectionHandlerInt = Inr s"
  shows "(\<forall>pre k ob post.
            history s = pre @ Callback (CB_OnReadyForFirstSend k) ob # post \<longrightarrow>
            (\<exists>conn resolved ob'.
               Callback (CB_OnOutgoingConnection k conn resolved) ob' \<in> set pre))
       \<and> (\<forall>k c. map_find k (m_connected s) = Some c \<and> IsOutgoing c \<longrightarrow>
            (\<exists>conn resolved ob'.
               Callback (CB_OnOutgoingConnection k conn resolved) ob' \<in> set (history s)))
       \<and> (\<forall>k c conn resolved. map_find k (m_connecting s) = Some c \<longrightarrow>
            (\<exists>s'. OnOutgoingConnected k conn resolved s = Inr s'
                \<and> callbacks_of (history s')
                     = callbacks_of (history s)
                       @ [CB_OnOutgoingConnection k conn resolved, CB_OnReadyForFirstSend k]))"
proof -
  have inv: "order_inv s"
    using order_inv_init assms by (rule order_inv_run)
  then have rp: "ready_preceded [] (history s)"
    and an: "\<forall>p\<in>set (m_connected s). IsOutgoing (snd p) \<longrightarrow> fst p \<in> set (announced (history s))"
    by (simp_all add: order_inv_def list_all_iff)
  have a: "\<exists>conn resolved ob'. Callback (CB_OnOutgoingConnection k conn resolved) ob' \<in> set pre"
    if "history s = pre @ Callback (CB_OnReadyForFirstSend k) ob # post" for pre k ob post
    using ready_preceded_split [OF rp that] by (simp add: announced_iff)
  have b: "\<exists>conn resolved ob'.
             Callback (CB_OnOutgoingConnection k conn resolved) ob' \<in> set (history s)"
    if "map_find k (m_connected s) = Some c" "IsOutgoing c" for k c
  proof -
    from that(1) have "(k, c) \<in> set (m_connected s)" by (rule map_find_SomeD)
    with an that(2) have "k \<in> set (announced (history s))" by force
    then show ?thesis by (simp add: announced_iff)
  qed
  have c: "\<exists>s'. OnOutgoingConnected k conn resolved s = Inr s'
                \<and> callbacks_of (history s')
                     = callbacks_of (history s)
                       @ [CB_OnOutgoingConnection k conn resolved, CB_OnReadyForFirstSend k]"
    if "map_find k (m_connecting s) = Some c" for k c conn resolved
    using that
    by (simp add: OnOutgoingConnected_def Let_def prim_defs callbacks_of_append)
  from a b c show ?thesis by blast
qed

lemma callbacks_connect_example:
  "callbacks_of (history (state_after connect_example))
     = [CB_OnStartup,
        CB_OnOutgoingConnection 0 direct_dest (resolved_connection direct_dest ''203.0.113.7''),
        CB_OnReadyForFirstSend 0]"
  by (simp add: connect_example_def direct_dest_def handler_defs)

theorem first_send_after_outgoing_connection_witness:
  "run connect_example CConnectionHandlerInt = Inr (state_after connect_example)
   \<and> map_find 0 (m_connected (state_after connect_example))
       = Some (new_connection Direct direct_dest)
   \<and> IsOutgoing (new_connection Direct direct_dest)
   \<and> callbacks_of (history (state_after connect_example))
       = [CB_OnStartup,
          CB_OnOutgoingConnection 0 direct_dest (resolved_connection direct_dest ''203.0.113.7''),
          CB_OnReadyForFirstSend 0]
   \<and> (\<exists>conn resolved ob'.
          Callback (CB_OnOutgoingConnection 0 conn resolved) ob'
            \<in> set (history (state_after connect_example)))"
proof -
  have f: "map_find 0 (m_connected (state_after connect_example))
             = Some (new_connection Direct direct_dest)"
    by (simp add: connected_connect_example map_find_def)
  have o: "IsOutgoing (new_connection Direct direct_dest)"
    by (simp add: IsOutgoing_def new_connection_def)
  from first_send_after_outgoing_connection [OF run_connect_example] f o
  have "\<exists>conn resolved ob'.
          Callback (CB_OnOutgoingConnection 0 conn resolved) ob'
            \<in> set (history (state_after connect_example))"
    by blast
  with run_connect_example f o callbacks_connect_example show ?thesis by simp
qed


section \<open>Counters and maps\<close>

lemma unat_succ:
  fixes i :: "32 word"
  assumes "unat i + 1 < 2 ^ 32"
  shows "unat (i + 1) = unat i + 1"
proof -
  have "unat i + unat (1 :: 32 word) < 2 ^ LENGTH(32)" using assms by simp
  then have "unat (i + 1) = unat i + unat (1 :: 32 word)" by (simp only: unat_add_lem)
  then show ?thesis by simp
qed

lemma less_succ:
  fixes i k :: "32 word"
  assumes "unat i + 1 < 2 ^ 32"
  shows "i < i + 1" and "k < i \<Longrightarrow> k < i + 1"
  using unat_succ [OF assms] by (simp_all add: word_less_nat_alt)

lemma below_not_key: "list_all (\<lambda>p. fst p < i) m \<Longrightarrow> map_find i m = None"
  by (auto simp add: map_find_None_iff list_all_iff)

lemma in_map_assignD: "p \<in> set (map_assign k v m) \<Longrightarrow> \<exists>q\<in>set m. fst q = fst p"
  by (force simp add: map_assign_def split: if_splits)

lemma handler_inv_frame:
  assumes "handler_inv s"
    and "m_connection_index s' = m_connection_index s"
    and "m_connected s' = m_connected s"
    and "m_connecting s' = m_connecting s"
    and "m_outgoing_conn_count s' = m_outgoing_conn_count s"
    and "m_incoming_conn_count s' = m_incoming_conn_count s"
  shows "handler_inv s'"
  using assms by (simp add: handler_inv_def counts_ok_def ids_ok_def)

lemma handler_inv_fresh:
  assumes "handler_inv s"
  shows "map_find (m_connection_index s) (m_connected s) = None"
    and "map_find (m_connection_index s) (m_connecting s) = None"
  using assms by (simp_all add: handler_inv_def ids_ok_def below_not_key)

text \<open>A fresh id is taken and an object is emplaced under it into \<open>m_connecting\<close>.\<close>

lemma handler_inv_emplace_connecting:
  assumes "handler_inv s" and "unat (m_connection_index s) + 1 < 2 ^ 32"
    and "m_connection_index s' = m_connection_index s + 1"
    and "m_connected s' = m_connected s"
    and "m_connecting s' = map_emplace (m_connection_index s) c (m_connecting s)"
    and "m_outgoing_conn_count s' = m_outgoing_conn_count s"
    and "m_incoming_conn_count s' = m_incoming_conn_count s"
  shows "handler_inv s'"
  using assms less_succ [OF assms(2)] handler_inv_fresh(1) [OF assms(1)]
  by (auto simp add: handler_inv_def counts_ok_def ids_ok_def list_all_iff
        dest!: in_map_emplaceD)

text \<open>A fresh id is taken and nothing is stored in the two maps.\<close>

lemma handler_inv_skip_id:
  assumes "handler_inv s" and "unat (m_connection_index s) + 1 < 2 ^ 32"
    and "m_connection_index s' = m_connection_index s + 1"
    and "m_connected s' = m_connected s"
    and "m_connecting s' = m_connecting s"
    and "m_outgoing_conn_count s' = m_outgoing_conn_count s"
    and "m_incoming_conn_count s' = m_incoming_conn_count s"
  shows "handler_inv s'"
  using assms less_succ [OF assms(2)]
  by (auto simp add: handler_inv_def counts_ok_def ids_ok_def list_all_iff)

text \<open>An object leaves \<open>m_connecting\<close>.\<close>

lemma handler_inv_erase_connecting:
  assumes "handler_inv s"
    and "m_connection_index s' = m_connection_index s"
    and "m_connected s' = m_connected s"
    and "m_connecting s' = map_erase k (m_connecting s)"
    and "m_outgoing_conn_count s' = m_outgoing_conn_count s"
    and "m_incoming_conn_count s' = m_incoming_conn_count s"
  shows "handler_inv s'"
  using assms
  by (auto simp add: handler_inv_def counts_ok_def ids_ok_def list_all_iff set_map_erase)

lemma handler_inv_assign_connecting:
  assumes "handler_inv s"
  shows "handler_inv (s\<lparr>m_connecting := map_assign k c (m_connecting s)\<rparr>)"
  using assms
  by (auto simp add: handler_inv_def counts_ok_def ids_ok_def list_all_iff
        dest!: in_map_assignD)

text \<open>An object moves from \<open>m_connecting\<close> to \<open>m_connected\<close> and is counted.\<close>

lemma handler_inv_promote:
  assumes "handler_inv s" and "map_find k (m_connecting s) = Some c"
    and "m_connection_index s' = m_connection_index s"
    and "m_connected s' = map_emplace k c (m_connected s)"
    and "m_connecting s' = map_erase k (m_connecting s)"
    and "m_outgoing_conn_count s'
           = (if IsOutgoing c then m_outgoing_conn_count s + 1 else m_outgoing_conn_count s)"
    and "m_incoming_conn_count s'
           = (if IsOutgoing c then m_incoming_conn_count s else m_incoming_conn_count s + 1)"
  shows "handler_inv s'"
proof -
  from assms(2) have mem: "(k, c) \<in> set (m_connecting s)" by (rule map_find_SomeD)
  with assms(1) have fresh: "map_find k (m_connected s) = None"
    and below: "k < m_connection_index s"
    by (auto simp add: handler_inv_def ids_ok_def list_all_iff)
  have cnt: "counts_ok s'"
    using assms(1,4,6,7) fresh
    by (simp add: handler_inv_def counts_ok_def count_outgoing_emplace count_incoming_emplace)
  have ids: "ids_ok s'"
    using assms(1,3,4,5) fresh below
    by (auto simp add: handler_inv_def ids_ok_def list_all_iff set_map_erase
          distinct_map_emplace map_find_emplace dest!: in_map_emplaceD)
  from cnt ids show ?thesis by (simp add: handler_inv_def)
qed

text \<open>An object leaves \<open>m_connected\<close> and is discounted.\<close>

lemma handler_inv_demote:
  assumes "handler_inv s" and "map_find k (m_connected s) = Some c"
    and "m_connection_index s' = m_connection_index s"
    and "m_connected s' = map_erase k (m_connected s)"
    and "m_connecting s' = m_connecting s"
    and "m_outgoing_conn_count s'
           = (if IsOutgoing c then m_outgoing_conn_count s - 1 else m_outgoing_conn_count s)"
    and "m_incoming_conn_count s'
           = (if IsOutgoing c then m_incoming_conn_count s else m_incoming_conn_count s - 1)"
  shows "handler_inv s'"
proof -
  from assms(1) have d: "distinct (map fst (m_connected s))"
    by (simp add: handler_inv_def ids_ok_def)
  have cnt: "counts_ok s'"
    using assms(1,4,6,7) count_outgoing_erase [OF d assms(2)] count_incoming_erase [OF d assms(2)]
    by (simp add: handler_inv_def counts_ok_def)
  have ids: "ids_ok s'"
    using assms(1,3,4,5)
    by (auto simp add: handler_inv_def ids_ok_def list_all_iff set_map_erase
          distinct_map_erase map_find_erase)
  from cnt ids show ?thesis by (simp add: handler_inv_def)
qed


lemma handler_inv_ShutdownInt:
  assumes "handler_inv s" and "ShutdownInt s = Inr s'"
  shows "handler_inv s' \<and> m_connection_index s' = m_connection_index s"
  using assms
  by (auto simp add: ShutdownInt_def Let_def disconnect_all_frame fail_connecting_frame
        handler_inv_def counts_ok_def ids_ok_def count_outgoing_def count_incoming_def
        split: if_splits)

lemma handler_inv_OnOutgoingConnected:
  assumes "handler_inv s" and "map_find k (m_connecting s) = Some c" and "IsOutgoing c"
    and "OnOutgoingConnected k conn resolved s = Inr s'"
  shows "handler_inv s' \<and> m_connection_index s' = m_connection_index s"
proof -
  have "handler_inv s'"
    by (rule handler_inv_promote [OF assms(1,2)])
       (use assms in \<open>auto simp add: OnOutgoingConnected_def Let_def prim_defs\<close>)
  moreover have "m_connection_index s' = m_connection_index s"
    using assms by (auto simp add: OnOutgoingConnected_def Let_def prim_defs)
  ultimately show ?thesis by simp
qed

lemma handler_inv_OnIncomingConnected:
  assumes "handler_inv s" and "map_find k (m_connecting s) = Some c" and "\<not> IsOutgoing c"
    and "OnIncomingConnected k conn resolved accept s = Inr s'"
  shows "handler_inv s' \<and> m_connection_index s' = m_connection_index s"
proof -
  have "handler_inv s'"
  proof (cases accept)
    case True
    show ?thesis
      by (rule handler_inv_promote [OF assms(1,2)])
         (use assms True in \<open>auto simp add: OnIncomingConnected_def Let_def prim_defs\<close>)
  next
    case False
    show ?thesis
      by (rule handler_inv_erase_connecting [OF assms(1), where k = k])
         (use assms False in \<open>auto simp add: OnIncomingConnected_def Let_def prim_defs\<close>)
  qed
  moreover have "m_connection_index s' = m_connection_index s"
    using assms
    by (auto simp add: OnIncomingConnected_def Let_def prim_defs split: if_splits)
  ultimately show ?thesis by simp
qed

lemma handler_inv_OnConnectionFailure:
  assumes "handler_inv s" and "unat (m_connection_index s) + 1 < 2 ^ 32"
    and "OnConnectionFailure k type err failed retry s = Inr s'"
  shows "handler_inv s'
       \<and> unat (m_connection_index s') \<le> unat (m_connection_index s) + 1"
proof -
  from assms(3) obtain ptr where f: "map_find k (m_connecting s) = Some ptr"
    by (auto simp add: OnConnectionFailure_def split: option.splits)
  let ?s1 = "s\<lparr>m_connecting := map_erase k (m_connecting s)\<rparr>"
  have h1: "handler_inv ?s1"
    by (rule handler_inv_erase_connecting [OF assms(1), where k = k]) simp_all
  show ?thesis
  proof (cases "retry \<and> \<not> m_shutdown s")
    case True
    have b1: "unat (m_connection_index ?s1) + 1 < 2 ^ 32" using assms(2) by simp
    have "handler_inv s'"
      by (rule handler_inv_emplace_connecting [OF h1 b1, where c = ptr])
         (use assms(3) f True in \<open>auto simp add: OnConnectionFailure_def Let_def prim_defs\<close>)
    moreover have "m_connection_index s' = m_connection_index s + 1"
      using assms(3) f True by (auto simp add: OnConnectionFailure_def Let_def prim_defs)
    ultimately show ?thesis using unat_succ [OF assms(2)] by simp
  next
    case False
    have "handler_inv s'"
      by (rule handler_inv_frame [OF h1])
         (use assms(3) f False in
            \<open>auto simp add: OnConnectionFailure_def Let_def prim_defs split: if_splits\<close>)
    moreover have "m_connection_index s' = m_connection_index s"
      using assms(3) f False
      by (auto simp add: OnConnectionFailure_def Let_def prim_defs split: if_splits)
    ultimately show ?thesis by simp
  qed
qed

lemma handler_inv_OnDisconnected:
  assumes "handler_inv s" and "unat (m_connection_index s) + 1 < 2 ^ 32"
    and "OnDisconnected k reconnect s = Inr s'"
  shows "handler_inv s'
       \<and> unat (m_connection_index s') \<le> unat (m_connection_index s) + 1"
proof -
  from assms(3) obtain moved where f: "map_find k (m_connected s) = Some moved"
    by (auto simp add: OnDisconnected_def Let_def split: option.splits)
  let ?s1 = "s\<lparr>m_connected := map_erase k (m_connected s),
               m_outgoing_conn_count :=
                 (if IsOutgoing moved then m_outgoing_conn_count s - 1
                  else m_outgoing_conn_count s),
               m_incoming_conn_count :=
                 (if IsOutgoing moved then m_incoming_conn_count s
                  else m_incoming_conn_count s - 1)\<rparr>"
  have h1: "handler_inv ?s1"
    by (rule handler_inv_demote [OF assms(1) f]) simp_all
  show ?thesis
  proof (cases "reconnect \<and> \<not> m_shutdown s")
    case True
    have b1: "unat (m_connection_index ?s1) + 1 < 2 ^ 32" using assms(2) by simp
    have "handler_inv s'"
      by (rule handler_inv_emplace_connecting [OF h1 b1, where c = moved])
         (use assms(3) f True in \<open>auto simp add: OnDisconnected_def Let_def prim_defs\<close>)
    moreover have "m_connection_index s' = m_connection_index s + 1"
      using assms(3) f True by (auto simp add: OnDisconnected_def Let_def prim_defs)
    ultimately show ?thesis using unat_succ [OF assms(2)] by simp
  next
    case False
    have "handler_inv s'"
      by (rule handler_inv_frame [OF h1])
         (use assms(3) f False in
            \<open>auto simp add: OnDisconnected_def Let_def prim_defs split: if_splits\<close>)
    moreover have "m_connection_index s' = m_connection_index s"
      using assms(3) f False
      by (auto simp add: OnDisconnected_def Let_def prim_defs split: if_splits)
    ultimately show ?thesis by simp
  qed
qed

lemma handler_inv_OnResolveFailure:
  assumes "handler_inv s" and "OnResolveFailure k conn err retry s = Inr s'"
  shows "handler_inv s' \<and> m_connection_index s' = m_connection_index s"
proof -
  have "handler_inv s'"
    by (rule handler_inv_frame [OF assms(1)])
       (use assms(2) in
          \<open>auto simp add: OnResolveFailure_def Let_def prim_defs split: option.splits if_splits\<close>)
  moreover have "m_connection_index s' = m_connection_index s"
    using assms(2)
    by (auto simp add: OnResolveFailure_def Let_def prim_defs split: option.splits if_splits)
  ultimately show ?thesis by simp
qed


lemma dns_kind:
  "ConnectionFailure event c = Inr (c', out) \<Longrightarrow> kind c' = kind c"
  "ConnectResolved created c = Inr (c', out) \<Longrightarrow> kind c' = kind c"
  "Connect created c = Inr (c', out) \<Longrightarrow> kind c' = kind c"
  "OnResolveFailure_dns err c = Inr (c', out) \<Longrightarrow> kind c' = kind c"
  "OnResolveSuccess response created c = Inr (c', out) \<Longrightarrow> kind c' = kind c"
  "OnConnectSuccess c = Inr (c', out) \<Longrightarrow> kind c' = kind c"
  "OnConnectFailure event c = Inr (c', out) \<Longrightarrow> kind c' = kind c"
  by (auto simp add: ConnectionFailure_def ConnectResolved_def Connect_def DoResolve_def
        OnResolveFailure_dns_def OnResolveSuccess_def OnConnectSuccess_def
        OnConnectFailure_def Let_def split: if_splits)

lemma OnConnectSuccess_outcome:
  "OnConnectSuccess c = Inr (c', out) \<Longrightarrow> \<exists>resolved. out = ReportConnected resolved"
  by (auto simp add: OnConnectSuccess_def Let_def split: if_splits)

lemma handler_inv_deliver_connected:
  assumes "handler_inv s" and "map_find k (m_connecting s) = Some c"
    and "deliver k (Inr (c', ReportConnected resolved)) s = Inr s'" and "kind c' = DNS"
  shows "handler_inv s' \<and> m_connection_index s' = m_connection_index s"
proof -
  let ?s1 = "s\<lparr>m_connecting := map_assign k c' (m_connecting s)\<rparr>"
  have h1: "handler_inv ?s1"
    using assms(1) by (rule handler_inv_assign_connecting)
  have f1: "map_find k (m_connecting ?s1) = Some c'"
    using assms(2) by (simp add: map_find_assign)
  have o: "IsOutgoing c'" using assms(4) by (simp add: IsOutgoing_def)
  have "OnOutgoingConnected k (m_connection c') resolved ?s1 = Inr s'"
    using assms(3) by (simp add: deliver_def)
  from handler_inv_OnOutgoingConnected [OF h1 f1 o this] show ?thesis by simp
qed

lemma handler_inv_deliver:
  assumes "handler_inv s" and "unat (m_connection_index s) + 1 < 2 ^ 32"
    and "map_find k (m_connecting s) = Some c"
    and "deliver k (Inr (c', out)) s = Inr s'" and "kind c' = DNS"
  shows "handler_inv s' \<and> unat (m_connection_index s') \<le> unat (m_connection_index s) + 1"
proof -
  let ?s1 = "s\<lparr>m_connecting := map_assign k c' (m_connecting s)\<rparr>"
  have h1: "handler_inv ?s1"
    using assms(1) by (rule handler_inv_assign_connecting)
  have b1: "unat (m_connection_index ?s1) + 1 < 2 ^ 32" using assms(2) by simp
  show ?thesis
  proof (cases out)
    case StartedResolve
    with assms(4) h1 show ?thesis by (auto simp add: deliver_def)
  next
    case (StartedConnect a)
    with assms(4) h1 show ?thesis by (auto simp add: deliver_def)
  next
    case (ReportFailure type err failed retry)
    with assms(4) have "OnConnectionFailure k type err failed retry ?s1 = Inr s'"
      by (simp add: deliver_def)
    from handler_inv_OnConnectionFailure [OF h1 b1 this] show ?thesis by simp
  next
    case (ReportConnected resolved)
    from handler_inv_deliver_connected [OF assms(1,3) assms(4) [unfolded ReportConnected] assms(5)]
    show ?thesis by simp
  qed
qed

lemma handler_inv_on_dns:
  assumes "handler_inv s" and "unat (m_connection_index s) + 1 < 2 ^ 32"
    and "on_dns k f s = Inr s'"
    and "\<And>c c' out. f c = Inr (c', out) \<Longrightarrow> kind c' = kind c"
  shows "handler_inv s' \<and> unat (m_connection_index s') \<le> unat (m_connection_index s) + 1"
proof -
  from assms(3) obtain c where f: "map_find k (m_connecting s) = Some c" and k: "kind c = DNS"
    and d: "deliver k (f c) s = Inr s'"
    by (auto simp add: on_dns_def split: option.splits if_splits dest!: liftD)
  from d obtain c' out where r: "f c = Inr (c', out)"
    by (cases "f c") (auto simp add: deliver_def)
  from assms(4) [OF r] k have k': "kind c' = DNS" by simp
  from handler_inv_deliver [OF assms(1,2) f d [unfolded r] k'] show ?thesis .
qed

lemma handler_inv_on_dns_connected:
  assumes "handler_inv s" and "on_dns k OnConnectSuccess s = Inr s'"
  shows "handler_inv s' \<and> m_connection_index s' = m_connection_index s"
proof -
  from assms(2) obtain c where f: "map_find k (m_connecting s) = Some c" and k: "kind c = DNS"
    and d: "deliver k (OnConnectSuccess c) s = Inr s'"
    by (auto simp add: on_dns_def split: option.splits if_splits dest!: liftD)
  from d obtain c' out where r: "OnConnectSuccess c = Inr (c', out)"
    by (cases "OnConnectSuccess c") (auto simp add: deliver_def)
  from OnConnectSuccess_outcome [OF r] obtain resolved where o: "out = ReportConnected resolved"
    by blast
  from dns_kind(6) [OF r] k have k': "kind c' = DNS" by simp
  from handler_inv_deliver_connected [OF assms(1) f d [unfolded r o] k'] show ?thesis .
qed

lemma handler_inv_call_Connect:
  assumes "handler_inv s" and "unat (m_connection_index s) + 1 < 2 ^ 32"
    and "call_Connect k env s = Inr s'"
  shows "handler_inv s' \<and> unat (m_connection_index s') \<le> unat (m_connection_index s) + 1"
proof (cases "map_find k (m_connecting s)")
  case None
  with assms show ?thesis by (simp add: call_Connect_def CIncomingConn_Connect_def CDirectConnection_Connect_def
          CProxyConn_Connect_def)
next
  case (Some c)
  show ?thesis
  proof (cases "kind c")
    case Direct
    with assms Some show ?thesis by (simp add: call_Connect_def CIncomingConn_Connect_def CDirectConnection_Connect_def
          CProxyConn_Connect_def)
  next
    case DNS
    with assms(3) Some have d: "deliver k (Connect (bev_created env) c) s = Inr s'"
      by (simp add: call_Connect_def CIncomingConn_Connect_def CDirectConnection_Connect_def
          CProxyConn_Connect_def)
    then obtain c' out where r: "Connect (bev_created env) c = Inr (c', out)"
      by (cases "Connect (bev_created env) c") (auto simp add: deliver_def)
    from dns_kind(3) [OF r] DNS have k': "kind c' = DNS" by simp
    from handler_inv_deliver [OF assms(1,2) Some d [unfolded r] k'] show ?thesis .
  next
    case Proxy
    with assms Some show ?thesis by (simp add: call_Connect_def CIncomingConn_Connect_def CDirectConnection_Connect_def
          CProxyConn_Connect_def)
  next
    case Incoming
    then have n: "\<not> IsOutgoing c" by (simp add: IsOutgoing_def)
    from Incoming assms(3) Some
    have "OnIncomingConnected k (m_connection c)
            (resolved_connection (m_connection c) (m_addr c)) (incoming_accepted env) s = Inr s'"
      by (simp add: call_Connect_def CIncomingConn_Connect_def CDirectConnection_Connect_def
          CProxyConn_Connect_def)
    from handler_inv_OnIncomingConnected [OF assms(1) Some n this] show ?thesis by simp
  qed
qed

lemma handler_inv_StartConnection:
  assumes "handler_inv s" and "unat (m_connection_index s) + 1 < 2 ^ 32"
  shows "\<exists>s'. StartConnection conn env s = Inr s' \<and> handler_inv s'
            \<and> unat (m_connection_index s') = unat (m_connection_index s) + 1"
proof -
  have fresh: "map_find (m_connection_index s) (m_connecting s) = None"
    using assms(1) by (rule handler_inv_fresh(2))
  define s' where
    "s' = (if IsDNS conn \<and> doResolve conn = RESOLVE_ONLY
           then (if ProxyIsSet conn then snd (next_id s)
                 else invoke (m_connection_index s) Call_Resolve
                        ((snd (next_id s))
                           \<lparr>m_dns_resolves :=
                              map_emplace (m_connection_index s) conn (m_dns_resolves s)\<rparr>))
           else invoke (m_connection_index s) Call_Connect
                  ((snd (next_id s))
                     \<lparr>m_connecting :=
                        map_emplace (m_connection_index s)
                          (if ProxyIsSet conn then new_connection Proxy conn
                           else if IsDNS conn
                                then (new_connection DNS conn)\<lparr>m_request := True\<rparr>
                                else new_connection Direct conn)
                          (m_connecting s)\<rparr>))"
  have r: "StartConnection conn env s = Inr s'"
    unfolding s'_def by (rule StartConnection_fresh [OF fresh])
  have i: "m_connection_index s' = m_connection_index s + 1"
    by (simp add: s'_def prim_defs)
  have h: "handler_inv s'"
  proof (cases "IsDNS conn \<and> doResolve conn = RESOLVE_ONLY")
    case True
    show ?thesis
      by (rule handler_inv_skip_id [OF assms])
         (simp_all add: s'_def prim_defs True)
  next
    case False
    show ?thesis
      by (rule handler_inv_emplace_connecting
            [OF assms, where c = "if ProxyIsSet conn then new_connection Proxy conn
                                  else if IsDNS conn
                                       then (new_connection DNS conn)\<lparr>m_request := True\<rparr>
                                       else new_connection Direct conn"])
         (simp_all add: s'_def prim_defs False)
  qed
  from r h i unat_succ [OF assms(2)] show ?thesis by simp
qed

lemma handler_inv_start_each:
  "handler_inv s \<Longrightarrow> unat (m_connection_index s) + length cs < 2 ^ 32 \<Longrightarrow>
     \<exists>s'. start_each cs env s = Inr s' \<and> handler_inv s'
        \<and> unat (m_connection_index s') \<le> unat (m_connection_index s) + length cs"
proof (induction cs arbitrary: s)
  case Nil
  then show ?case by simp
next
  case (Cons c cs)
  show ?case
  proof (cases "IsSet c")
    case True
    from Cons.prems have b: "unat (m_connection_index s) + 1 < 2 ^ 32" by simp
    from handler_inv_StartConnection [OF Cons.prems(1) b, of c env]
    obtain s1 where r1: "StartConnection c env s = Inr s1" and h1: "handler_inv s1"
      and i1: "unat (m_connection_index s1) = unat (m_connection_index s) + 1"
      by blast
    from i1 Cons.prems(2) have b1: "unat (m_connection_index s1) + length cs < 2 ^ 32"
      by simp
    from Cons.IH [OF h1 b1]
    obtain s' where r: "start_each cs env s1 = Inr s'" and h: "handler_inv s'"
      and i: "unat (m_connection_index s') \<le> unat (m_connection_index s1) + length cs"
      by blast
    from True r1 r have "start_each (c # cs) env s = Inr s'" by simp
    with h i i1 show ?thesis by simp
  next
    case False
    from Cons.prems(2) have b1: "unat (m_connection_index s) + length cs < 2 ^ 32" by simp
    from Cons.IH [OF Cons.prems(1) b1]
    obtain s' where r: "start_each cs env s = Inr s'" and h: "handler_inv s'"
      and i: "unat (m_connection_index s') \<le> unat (m_connection_index s) + length cs"
      by blast
    from False r have "start_each (c # cs) env s = Inr s'" by simp
    with h i show ?thesis by simp
  qed
qed

lemma handler_inv_RequestOutgoingInt:
  assumes "handler_inv s" and "unat (m_connection_index s) + length (f (need_outgoing s)) < 2 ^ 32"
  shows "\<exists>s'. RequestOutgoingInt f env s = Inr s' \<and> handler_inv s'
            \<and> unat (m_connection_index s')
                 \<le> unat (m_connection_index s) + length (f (need_outgoing s))"
proof (cases "need_outgoing s > 0")
  case True
  let ?s1 = "emit (CB_OnNeedOutgoingConnections (need_outgoing s)) s"
  let ?cs = "take (min (length (f (need_outgoing s))) (unat (need_outgoing s))) (f (need_outgoing s))"
  have h1: "handler_inv ?s1"
    using assms(1) by (rule handler_inv_frame) (simp_all add: emit_def)
  have b1: "unat (m_connection_index ?s1) + length ?cs < 2 ^ 32"
    using assms(2) by (simp add: emit_def)
  have l: "length ?cs \<le> length (f (need_outgoing s))" by simp
  have e: "RequestOutgoingInt f env s = start_each ?cs env ?s1"
    using True by (simp add: RequestOutgoingInt_def Let_def)
  have i1: "m_connection_index ?s1 = m_connection_index s" by (simp add: emit_def)
  from handler_inv_start_each [OF h1 b1, of env]
  obtain s' where r: "start_each ?cs env ?s1 = Inr s'" and h: "handler_inv s'"
    and i: "unat (m_connection_index s') \<le> unat (m_connection_index ?s1) + length ?cs"
    by blast
  from i l have "unat (m_connection_index s')
                   \<le> unat (m_connection_index s) + length (f (need_outgoing s))"
    unfolding i1 by linarith
  with r h show ?thesis unfolding e by blast
next
  case False
  with assms(1) show ?thesis by (simp add: RequestOutgoingInt_def Let_def)
qed

lemma handler_inv_OnIncomingConnection:
  assumes "handler_inv s" and "unat (m_connection_index s) + 1 < 2 ^ 32"
    and "OnIncomingConnection bind address env s = Inr s'"
  shows "handler_inv s'
       \<and> unat (m_connection_index s') = unat (m_connection_index s) + 1"
proof -
  have fresh: "map_find (m_connection_index s) (m_connecting s) = None"
    using assms(1) by (rule handler_inv_fresh(2))
  define ptr where "ptr = CIncomingConn bind address"
  define s2 where
    "s2 = invoke (m_connection_index s) Call_Connect
            ((snd (next_id s))
               \<lparr>m_connecting := map_emplace (m_connection_index s) ptr (m_connecting s)\<rparr>)"
  have h2: "handler_inv s2"
    by (rule handler_inv_emplace_connecting [OF assms(1,2), where c = ptr])
       (simp_all add: s2_def prim_defs)
  have f2: "map_find (m_connection_index s) (m_connecting s2) = Some ptr"
    using fresh by (simp add: s2_def prim_defs map_find_emplace)
  have n: "\<not> IsOutgoing ptr"
    by (simp add: ptr_def CIncomingConn_def IsOutgoing_def new_connection_def)
  have r: "OnIncomingConnected (m_connection_index s) bind (resolved_connection bind address)
             (incoming_accepted env) s2 = Inr s'"
    using assms(3) by (simp add: OnIncomingConnection_fresh [OF fresh] s2_def ptr_def)
  from handler_inv_OnIncomingConnected [OF h2 f2 n r]
  have "handler_inv s'" and "m_connection_index s' = m_connection_index s2" by simp_all
  moreover have "m_connection_index s2 = m_connection_index s + 1"
    by (simp add: s2_def prim_defs)
  ultimately show ?thesis using unat_succ [OF assms(2)] by simp
qed

lemma handler_inv_dispatch:
  assumes "handler_inv s" and "unat (m_connection_index s) + event_demand e < 2 ^ 32"
    and "dispatch e s = Inr s'"
  shows "handler_inv s'
       \<and> unat (m_connection_index s') \<le> unat (m_connection_index s) + event_demand e"
proof (cases e)
  case (Ev_RequestOutgoing conns env)
  from assms(2) have "unat (m_connection_index s) + length ((\<lambda>need. conns) (need_outgoing s)) < 2 ^ 32"
    by (simp add: Ev_RequestOutgoing)
  from handler_inv_RequestOutgoingInt [OF assms(1) this, of env] assms(3) show ?thesis
    by (auto simp add: Ev_RequestOutgoing lift_def)
next
  case Ev_Shutdown
  from assms(3) have "ShutdownInt s = Inr s'"
    by (simp add: Ev_Shutdown liftD)
  from handler_inv_ShutdownInt [OF assms(1) this] show ?thesis by simp
next
  case (Ev_Accept b address env)
  from assms(3) obtain bind where r: "OnIncomingConnection bind address env s = Inr s'"
    by (auto simp add: Ev_Accept split: option.splits dest!: liftD)
  from assms(2) have b: "unat (m_connection_index s) + 1 < 2 ^ 32"
    by (simp add: Ev_Accept)
  from handler_inv_OnIncomingConnection [OF assms(1) b r] show ?thesis
    by (simp add: Ev_Accept)
next
  case (Ev_ListenFailure b)
  from assms(3) obtain bind where e: "s' = OnListenFailure b bind s"
    by (auto simp add: Ev_ListenFailure split: option.splits)
  have "handler_inv (OnListenFailure b bind s)"
    using assms(1) by (rule handler_inv_frame) (simp_all add: OnListenFailure_def Let_def emit_def)
  with e show ?thesis by (simp add: OnListenFailure_def Let_def emit_def)
next
  case (Ev_Connected k resolved)
  from assms(3) obtain c where f: "map_find k (m_connecting s) = Some c"
    and o: "IsOutgoing c"
    and r: "OnOutgoingConnected k (m_connection c) resolved s = Inr s'"
    by (auto simp add: Ev_Connected IsOutgoing_def split: option.splits if_splits dest!: liftD)
  from handler_inv_OnOutgoingConnected [OF assms(1) f o r] show ?thesis by simp
next
  case (Ev_Failed k type err failed retry)
  from assms(3) have r: "OnConnectionFailure k type err failed retry s = Inr s'"
    by (auto simp add: Ev_Failed split: option.splits if_splits dest!: liftD)
  from assms(2) have b: "unat (m_connection_index s) + 1 < 2 ^ 32"
    by (simp add: Ev_Failed)
  from handler_inv_OnConnectionFailure [OF assms(1) b r] show ?thesis
    by (simp add: Ev_Failed)
next
  case (Ev_Disconnected k reconnect)
  from assms(3) obtain again where r: "OnDisconnected k again s = Inr s'"
    by (auto simp add: Ev_Disconnected ConnectionBase_OnDisconnected_def
          split: option.splits dest!: liftD)
  from assms(2) have b: "unat (m_connection_index s) + 1 < 2 ^ 32"
    by (simp add: Ev_Disconnected)
  from handler_inv_OnDisconnected [OF assms(1) b r] show ?thesis
    by (simp add: Ev_Disconnected)
next
  case (Ev_Reconnect k env)
  from assms(3) have r: "call_Connect k env s = Inr s'"
    by (auto simp add: Ev_Reconnect split: option.splits dest!: liftD)
  from assms(2) have b: "unat (m_connection_index s) + 1 < 2 ^ 32"
    by (simp add: Ev_Reconnect)
  from handler_inv_call_Connect [OF assms(1) b r] show ?thesis
    by (simp add: Ev_Reconnect)
next
  case (Ev_DnsResolveFailure k err)
  from assms(3) have r: "on_dns k (OnResolveFailure_dns err) s = Inr s'"
    by (simp add: Ev_DnsResolveFailure)
  from assms(2) have b: "unat (m_connection_index s) + 1 < 2 ^ 32"
    by (simp add: Ev_DnsResolveFailure)
  from handler_inv_on_dns [OF assms(1) b r dns_kind(4)] show ?thesis
    by (simp add: Ev_DnsResolveFailure)
next
  case (Ev_DnsResolveSuccess k response created)
  from assms(3) have r: "on_dns k (OnResolveSuccess response created) s = Inr s'"
    by (simp add: Ev_DnsResolveSuccess)
  from assms(2) have b: "unat (m_connection_index s) + 1 < 2 ^ 32"
    by (simp add: Ev_DnsResolveSuccess)
  from handler_inv_on_dns [OF assms(1) b r dns_kind(5)] show ?thesis
    by (simp add: Ev_DnsResolveSuccess)
next
  case (Ev_DnsConnectFailure k event)
  from assms(3) have r: "on_dns k (OnConnectFailure event) s = Inr s'"
    by (simp add: Ev_DnsConnectFailure)
  from assms(2) have b: "unat (m_connection_index s) + 1 < 2 ^ 32"
    by (simp add: Ev_DnsConnectFailure)
  from handler_inv_on_dns [OF assms(1) b r dns_kind(7)] show ?thesis
    by (simp add: Ev_DnsConnectFailure)
next
  case (Ev_DnsConnectSuccess k)
  from assms(3) have r: "on_dns k OnConnectSuccess s = Inr s'"
    by (simp add: Ev_DnsConnectSuccess)
  from handler_inv_on_dns_connected [OF assms(1) r] show ?thesis by simp
next
  case (Ev_ResolveComplete k resolved)
  from assms(3) obtain conn where e: "s' = OnResolveComplete k conn resolved s"
    by (auto simp add: Ev_ResolveComplete split: option.splits)
  have "handler_inv (OnResolveComplete k conn resolved s)"
    using assms(1)
    by (rule handler_inv_frame) (simp_all add: OnResolveComplete_def Let_def emit_def)
  with e show ?thesis by (simp add: OnResolveComplete_def Let_def emit_def)
next
  case (Ev_ResolveFailure k err retry)
  from assms(3) obtain conn where r: "OnResolveFailure k conn err retry s = Inr s'"
    by (auto simp add: Ev_ResolveFailure split: option.splits dest!: liftD)
  from handler_inv_OnResolveFailure [OF assms(1) r] show ?thesis by simp
next
  case (Ev_ReceiveMessages k msgs totalsize keep)
  from assms(3) have e: "s' = snd (OnReceiveMessages k msgs totalsize keep s)"
    by (simp add: Ev_ReceiveMessages)
  have "handler_inv (snd (OnReceiveMessages k msgs totalsize keep s))"
    using assms(1) by (rule handler_inv_frame) (simp_all add: OnReceiveMessages_def emit_def)
  with e show ?thesis by (simp add: OnReceiveMessages_def emit_def)
next
  case (Ev_WriteBufferFull k bufsize)
  from assms(3) have e: "s' = OnWriteBufferFull k bufsize s"
    by (simp add: Ev_WriteBufferFull)
  have "handler_inv (OnWriteBufferFull k bufsize s)"
    using assms(1) by (rule handler_inv_frame) (simp_all add: OnWriteBufferFull_def emit_def)
  with e show ?thesis by (simp add: OnWriteBufferFull_def emit_def)
next
  case (Ev_WriteBufferReady k bufsize)
  from assms(3) have e: "s' = OnWriteBufferReady k bufsize s"
    by (simp add: Ev_WriteBufferReady)
  have "handler_inv (OnWriteBufferReady k bufsize s)"
    using assms(1) by (rule handler_inv_frame) (simp_all add: OnWriteBufferReady_def emit_def)
  with e show ?thesis by (simp add: OnWriteBufferReady_def emit_def)
qed

lemma handler_inv_event_base_loop:
  "handler_inv s \<Longrightarrow> unat (m_connection_index s) + sum_list (map event_demand es) < 2 ^ 32 \<Longrightarrow>
     event_base_loop es s = Inr s' \<Longrightarrow>
     handler_inv s'
     \<and> unat (m_connection_index s')
          \<le> unat (m_connection_index s) + sum_list (map event_demand es)"
proof (induction es arbitrary: s)
  case Nil
  then show ?case by simp
next
  case (Cons e es)
  from Cons.prems(3) obtain s1 where d: "dispatch e s = Inr s1"
    and l: "if m_shutdown s1 then s' = s1 else event_base_loop es s1 = Inr s'"
    by (auto split: sum.splits if_splits)
  from Cons.prems(2) have b: "unat (m_connection_index s) + event_demand e < 2 ^ 32" by simp
  from handler_inv_dispatch [OF Cons.prems(1) b d]
  have h1: "handler_inv s1"
    and i1: "unat (m_connection_index s1) \<le> unat (m_connection_index s) + event_demand e"
    by simp_all
  show ?case
  proof (cases "m_shutdown s1")
    case True
    with l h1 i1 show ?thesis by simp
  next
    case False
    with l have r: "event_base_loop es s1 = Inr s'" by simp
    from i1 Cons.prems(2)
    have b1: "unat (m_connection_index s1) + sum_list (map event_demand es) < 2 ^ 32" by simp
    from Cons.IH [OF h1 b1 r] i1 show ?thesis by simp
  qed
qed

lemma handler_inv_PumpEvents:
  assumes "handler_inv s"
    and "unat (m_connection_index s) + sum_list (map event_demand ready) < 2 ^ 32"
    and "PumpEvents block ready s = Inr (ret, s')"
  shows "handler_inv s'
       \<and> unat (m_connection_index s')
            \<le> unat (m_connection_index s) + sum_list (map event_demand ready)"
proof (cases "m_event_base s \<and> \<not> m_shutdown s")
  case True
  with assms(3) obtain s1 where l: "event_base_loop ready s = Inr s1"
    and e: "s' = (if m_shutdown s1 then emit CB_OnShutdown (s1\<lparr>m_event_base := False\<rparr>) else s1)"
    by (auto simp add: PumpEvents_def split: sum.splits if_splits)
  from handler_inv_event_base_loop [OF assms(1,2) l]
  have h1: "handler_inv s1"
    and i1: "unat (m_connection_index s1)
               \<le> unat (m_connection_index s) + sum_list (map event_demand ready)"
    by simp_all
  have "handler_inv (emit CB_OnShutdown (s1\<lparr>m_event_base := False\<rparr>))"
    using h1 by (rule handler_inv_frame) (simp_all add: emit_def)
  with h1 i1 e show ?thesis by (simp add: emit_def)
next
  case False
  with assms show ?thesis by (auto simp add: PumpEvents_def split: if_splits)
qed

lemma handler_inv_step:
  assumes "handler_inv s" and "unat (m_connection_index s) + id_demand c < 2 ^ 32"
    and "step c s = Inr s'"
  shows "handler_inv s'
       \<and> unat (m_connection_index s') \<le> unat (m_connection_index s) + id_demand c"
proof (cases c)
  case (Cmd_Start limit)
  have "handler_inv s'"
    by (rule handler_inv_frame [OF assms(1)])
       (use assms(3) Cmd_Start in
          \<open>auto simp add: Start_def Let_def prim_defs split: if_splits dest!: liftD\<close>)
  moreover have "m_connection_index s' = m_connection_index s"
    using assms(3) Cmd_Start
    by (auto simp add: Start_def Let_def prim_defs split: if_splits dest!: liftD)
  ultimately show ?thesis by simp
next
  case (Cmd_PumpEvents block ready)
  from assms(3) obtain ret where r: "PumpEvents block ready s = Inr (ret, s')"
    by (auto simp add: Cmd_PumpEvents split: sum.splits)
  from assms(2) have b: "unat (m_connection_index s) + sum_list (map event_demand ready) < 2 ^ 32"
    by (simp add: Cmd_PumpEvents)
  from handler_inv_PumpEvents [OF assms(1) b r] show ?thesis
    by (simp add: Cmd_PumpEvents)
next
  case Cmd_Shutdown
  have "handler_inv (Shutdown s)"
    using assms(1) by (rule handler_inv_frame) (simp_all add: Shutdown_def)
  with Cmd_Shutdown assms show ?thesis by (auto simp add: Shutdown_def)
next
  case (Cmd_Bind conn ret)
  have "handler_inv (snd (Bind conn ret s))"
    by (rule handler_inv_skip_id [OF assms(1)])
       (use assms(2) Cmd_Bind in \<open>auto simp add: Bind_def Let_def prim_defs\<close>)
  moreover have "m_connection_index (snd (Bind conn ret s)) = m_connection_index s + 1"
    by (auto simp add: Bind_def Let_def prim_defs)
  moreover from assms(2) have "unat (m_connection_index s) + 1 < 2 ^ 32"
    by (simp add: Cmd_Bind)
  ultimately show ?thesis
    using assms(3) unat_succ [of "m_connection_index s"] by (simp add: Cmd_Bind)
next
  case (Cmd_StartConnection conn env)
  from assms(2) have b: "unat (m_connection_index s) + 1 < 2 ^ 32"
    by (simp add: Cmd_StartConnection)
  from handler_inv_StartConnection [OF assms(1) b, of conn env] assms(3) show ?thesis
    by (auto simp add: Cmd_StartConnection lift_def)
next
  case (Cmd_CloseConnection k immediately)
  have "handler_inv (CloseConnection k immediately s)"
    using assms(1)
    by (rule handler_inv_frame)
       (simp_all add: CloseConnection_def invoke_def split: option.splits)
  with Cmd_CloseConnection assms show ?thesis
    by (auto simp add: CloseConnection_def invoke_def split: option.splits)
next
  case (Cmd_PauseRecv k)
  have "handler_inv (PauseRecv k s)"
    using assms(1)
    by (rule handler_inv_frame) (simp_all add: PauseRecv_def invoke_def split: option.splits)
  with Cmd_PauseRecv assms show ?thesis
    by (auto simp add: PauseRecv_def invoke_def split: option.splits)
next
  case (Cmd_UnpauseRecv k)
  have "handler_inv (UnpauseRecv k s)"
    using assms(1)
    by (rule handler_inv_frame) (simp_all add: UnpauseRecv_def invoke_def split: option.splits)
  with Cmd_UnpauseRecv assms show ?thesis
    by (auto simp add: UnpauseRecv_def invoke_def split: option.splits)
next
  case (Cmd_Send k data written)
  have "handler_inv (snd (Send k data written s))"
    using assms(1)
    by (rule handler_inv_frame) (simp_all add: Send_def invoke_def split: option.splits)
  with Cmd_Send assms show ?thesis
    by (auto simp add: Send_def invoke_def split: option.splits)
next
  case (Cmd_SetRateLimit k limit)
  have "handler_inv (SetRateLimit k limit s)"
    using assms(1)
    by (rule handler_inv_frame) (simp_all add: SetRateLimit_def invoke_def split: option.splits)
  with Cmd_SetRateLimit assms show ?thesis
    by (auto simp add: SetRateLimit_def invoke_def split: option.splits)
qed

lemma handler_inv_run:
  "handler_inv s \<Longrightarrow> unat (m_connection_index s) + ids_demanded cs < 2 ^ 32 \<Longrightarrow>
     run cs s = Inr s' \<Longrightarrow> handler_inv s'"
proof (induction cs arbitrary: s)
  case Nil
  then show ?case by simp
next
  case (Cons c cs)
  from Cons.prems(3) obtain s1 where st: "step c s = Inr s1" and r: "run cs s1 = Inr s'"
    by (auto split: sum.splits)
  from Cons.prems(2) have b: "unat (m_connection_index s) + id_demand c < 2 ^ 32"
    by (simp add: ids_demanded_def)
  from handler_inv_step [OF Cons.prems(1) b st]
  have h1: "handler_inv s1"
    and i1: "unat (m_connection_index s1) \<le> unat (m_connection_index s) + id_demand c"
    by simp_all
  from i1 Cons.prems(2) have b1: "unat (m_connection_index s1) + ids_demanded cs < 2 ^ 32"
    by (simp add: ids_demanded_def)
  from Cons.IH [OF h1 b1 r] show ?case .
qed

lemma handler_inv_init: "handler_inv CConnectionHandlerInt"
  by (simp add: handler_inv_def counts_ok_def ids_ok_def CConnectionHandlerInt_def
        count_outgoing_def count_incoming_def)


lemma handler_inv_run_index:
  "handler_inv s \<Longrightarrow> unat (m_connection_index s) + ids_demanded cs < 2 ^ 32 \<Longrightarrow>
     run cs s = Inr s' \<Longrightarrow>
     unat (m_connection_index s') \<le> unat (m_connection_index s) + ids_demanded cs"
proof (induction cs arbitrary: s)
  case Nil
  then show ?case by simp
next
  case (Cons c cs)
  from Cons.prems(3) obtain s1 where st: "step c s = Inr s1" and r: "run cs s1 = Inr s'"
    by (auto split: sum.splits)
  from Cons.prems(2) have b: "unat (m_connection_index s) + id_demand c < 2 ^ 32"
    by (simp add: ids_demanded_def)
  from handler_inv_step [OF Cons.prems(1) b st]
  have h1: "handler_inv s1"
    and i1: "unat (m_connection_index s1) \<le> unat (m_connection_index s) + id_demand c"
    by simp_all
  from i1 Cons.prems(2) have b1: "unat (m_connection_index s1) + ids_demanded cs < 2 ^ 32"
    by (simp add: ids_demanded_def)
  from Cons.IH [OF h1 b1 r] i1 show ?case by (simp add: ids_demanded_def)
qed

lemma length_below_index:
  fixes i :: "32 word"
  assumes "distinct (map fst m)" and "list_all (\<lambda>p. fst p < i) m"
  shows "length m \<le> unat i"
proof -
  have "card (set (map fst m)) = length (map fst m)"
    using assms(1) by (rule distinct_card)
  then have "length m = card (set (map fst m))" by simp
  also have "\<dots> = card (unat ` set (map fst m))"
    by (rule card_image [symmetric]) (simp add: inj_on_def word_unat_eq_iff)
  also have "\<dots> \<le> card {..<unat i}"
    using assms(2) by (intro card_mono) (auto simp add: list_all_iff word_less_nat_alt)
  finally show ?thesis by simp
qed

text \<open>
  C4. In every run that fails no assertion and allocates fewer than \<open>2 ^ 32\<close> ids,
  whenever an operation of the handler has returned, \<open>m_outgoing_conn_count\<close> is the
  number of outgoing entries of \<open>m_connected\<close> and \<open>m_incoming_conn_count\<close> the number
  of incoming ones. (While a callback runs this need not hold.)
\<close>

theorem counters_match_between_operations:
  assumes "run cs CConnectionHandlerInt = Inr s" and "ids_demanded cs < 2 ^ 32"
  shows "m_outgoing_conn_count s = word_of_nat (count_outgoing (m_connected s))
       \<and> m_incoming_conn_count s = word_of_nat (count_incoming (m_connected s))
       \<and> unat (m_outgoing_conn_count s) = count_outgoing (m_connected s)
       \<and> unat (m_incoming_conn_count s) = count_incoming (m_connected s)"
proof -
  have b: "unat (m_connection_index CConnectionHandlerInt) + ids_demanded cs < 2 ^ 32"
    using assms(2) by (simp add: CConnectionHandlerInt_def)
  have inv: "handler_inv s"
    using handler_inv_init b assms(1) by (rule handler_inv_run)
  have "unat (m_connection_index s) \<le> ids_demanded cs"
    using handler_inv_run_index [OF handler_inv_init b assms(1)]
    by (simp add: CConnectionHandlerInt_def)
  with assms(2) have i: "unat (m_connection_index s) < 2 ^ 32" by simp
  from inv have "length (m_connected s) \<le> unat (m_connection_index s)"
    by (simp add: handler_inv_def ids_ok_def length_below_index)
  with i have l: "length (m_connected s) < 2 ^ 32" by simp
  have "count_outgoing (m_connected s) \<le> length (m_connected s)"
    "count_incoming (m_connected s) \<le> length (m_connected s)"
    by (simp_all add: count_outgoing_def count_incoming_def)
  with l have o: "count_outgoing (m_connected s) < 2 ^ 32"
    and n: "count_incoming (m_connected s) < 2 ^ 32"
    by simp_all
  from inv have c: "m_outgoing_conn_count s = word_of_nat (count_outgoing (m_connected s))"
    "m_incoming_conn_count s = word_of_nat (count_incoming (m_connected s))"
    by (simp_all add: handler_inv_def counts_ok_def)
  from o n c show ?thesis
    by (simp add: unsigned_of_nat take_bit_nat_eq_self)
qed

lemma counters_connect_example:
  "m_outgoing_conn_count (state_after connect_example) = 1
   \<and> m_incoming_conn_count (state_after connect_example) = 0"
  by (simp add: connect_example_def direct_dest_def handler_defs)

theorem counters_match_between_operations_witness:
  "run connect_example CConnectionHandlerInt = Inr (state_after connect_example)
   \<and> ids_demanded connect_example < 2 ^ 32
   \<and> m_outgoing_conn_count (state_after connect_example) = 1
   \<and> count_outgoing (m_connected (state_after connect_example)) = 1
   \<and> m_incoming_conn_count (state_after connect_example) = 0
   \<and> count_incoming (m_connected (state_after connect_example)) = 0"
proof -
  have d: "ids_demanded connect_example < 2 ^ 32"
    by (simp add: ids_demanded_def connect_example_def)
  from counters_match_between_operations [OF run_connect_example d]
  show ?thesis
    using run_connect_example d by (simp add: counters_connect_example)
qed

theorem counters_lag_inside_callbacks_counterexample:
  "run connect_example CConnectionHandlerInt = Inr (state_after connect_example)
   \<and> history (state_after connect_example) ! 5
       = Callback (CB_OnOutgoingConnection 0 direct_dest
                     (resolved_connection direct_dest ''203.0.113.7''))
           \<lparr>ob_connected = [(0, new_connection Direct direct_dest)], ob_connecting = [],
            ob_binds = [], ob_dns_resolves = [], ob_outgoing_conn_count = 0,
            ob_incoming_conn_count = 0, ob_shutdown = False\<rparr>
   \<and> count_outgoing [(0, new_connection Direct direct_dest)] = 1
   \<and> seen_inconsistent (history (state_after connect_example))
       = [CB_OnOutgoingConnection 0 direct_dest (resolved_connection direct_dest ''203.0.113.7''),
          CB_OnReadyForFirstSend 0]"
  by (simp add: connect_example_def direct_dest_def handler_defs observed_counts_ok_def
        count_outgoing_def count_incoming_def)


section \<open>The refill cycle\<close>

lemma outgoing_inv_sub:
  assumes "outgoing_inv s" and "set (m_connecting s') \<subseteq> set (m_connecting s)"
  shows "outgoing_inv s'"
  using assms by (auto simp add: outgoing_inv_def list_all_iff)

lemma outgoing_inv_frame:
  "outgoing_inv s \<Longrightarrow> m_connecting s' = m_connecting s \<Longrightarrow> outgoing_inv s'"
  by (simp add: outgoing_inv_def)

lemma outgoing_inv_erase:
  "outgoing_inv s \<Longrightarrow> m_connecting s' = map_erase k (m_connecting s) \<Longrightarrow> outgoing_inv s'"
  by (erule outgoing_inv_sub) (auto simp add: set_map_erase)

lemma outgoing_inv_emplace:
  assumes "outgoing_inv s" and "IsOutgoing c"
    and "m_connecting s' = map_emplace k c (m_connecting s)"
  shows "outgoing_inv s'"
  using assms by (auto simp add: outgoing_inv_def list_all_iff dest!: in_map_emplaceD)

lemma in_map_assignD2: "p \<in> set (map_assign k v m) \<Longrightarrow> p = (k, v) \<or> p \<in> set m"
  by (auto simp add: map_assign_def split: if_splits)

lemma outgoing_inv_assign:
  assumes "outgoing_inv s" and "IsOutgoing c"
  shows "outgoing_inv (s\<lparr>m_connecting := map_assign k c (m_connecting s)\<rparr>)"
  using assms by (auto simp add: outgoing_inv_def list_all_iff dest!: in_map_assignD2)

lemma outgoing_inv_found:
  "outgoing_inv s \<Longrightarrow> map_find k (m_connecting s) = Some c \<Longrightarrow> IsOutgoing c"
  by (auto simp add: outgoing_inv_def list_all_iff dest!: map_find_SomeD)

lemma outgoing_inv_OnConnectionFailure:
  assumes "outgoing_inv s" and "OnConnectionFailure k type err failed retry s = Inr s'"
  shows "outgoing_inv s'"
proof -
  from assms(2) obtain ptr where f: "map_find k (m_connecting s) = Some ptr"
    by (auto simp add: OnConnectionFailure_def split: option.splits)
  from outgoing_inv_found [OF assms(1) f] have o: "IsOutgoing ptr" .
  let ?s1 = "s\<lparr>m_connecting := map_erase k (m_connecting s)\<rparr>"
  have h1: "outgoing_inv ?s1"
    using assms(1) by (rule outgoing_inv_erase) simp
  show ?thesis
  proof (cases "retry \<and> \<not> m_shutdown s")
    case True
    show ?thesis
      by (rule outgoing_inv_emplace [OF h1 o, where k = "m_connection_index s"])
         (use assms(2) f True in \<open>auto simp add: OnConnectionFailure_def Let_def prim_defs\<close>)
  next
    case False
    show ?thesis
      by (rule outgoing_inv_frame [OF h1])
         (use assms(2) f False in
            \<open>auto simp add: OnConnectionFailure_def Let_def prim_defs split: if_splits\<close>)
  qed
qed

lemma outgoing_inv_OnOutgoingConnected:
  "outgoing_inv s \<Longrightarrow> OnOutgoingConnected k conn resolved s = Inr s' \<Longrightarrow> outgoing_inv s'"
  by (erule outgoing_inv_erase [where k = k])
     (auto simp add: OnOutgoingConnected_def Let_def prim_defs split: option.splits)

lemma outgoing_inv_OnDisconnected:
  assumes "outgoing_inv s" and "map_find k (m_connected s) = Some c"
    and "reconnect \<longrightarrow> IsOutgoing c" and "OnDisconnected k reconnect s = Inr s'"
  shows "outgoing_inv s'"
proof (cases "reconnect \<and> \<not> m_shutdown s")
  case True
  with assms(3) have o: "IsOutgoing c" by simp
  show ?thesis
    by (rule outgoing_inv_emplace [OF assms(1) o, where k = "m_connection_index s"])
       (use assms(2,4) True in \<open>auto simp add: OnDisconnected_def Let_def prim_defs\<close>)
next
  case False
  show ?thesis
    by (rule outgoing_inv_frame [OF assms(1)])
       (use assms(2,4) False in
          \<open>auto simp add: OnDisconnected_def Let_def prim_defs split: if_splits\<close>)
qed

lemma outgoing_inv_OnResolveFailure:
  "outgoing_inv s \<Longrightarrow> OnResolveFailure k conn err retry s = Inr s' \<Longrightarrow> outgoing_inv s'"
  by (erule outgoing_inv_frame)
     (auto simp add: OnResolveFailure_def Let_def prim_defs split: option.splits if_splits)

lemma outgoing_inv_deliver:
  assumes "outgoing_inv s" and "deliver k (Inr (c', out)) s = Inr s'" and "IsOutgoing c'"
  shows "outgoing_inv s'"
proof -
  let ?s1 = "s\<lparr>m_connecting := map_assign k c' (m_connecting s)\<rparr>"
  have h1: "outgoing_inv ?s1"
    using assms(1,3) by (rule outgoing_inv_assign)
  show ?thesis
  proof (cases out)
    case StartedResolve
    with assms(2) h1 show ?thesis by (simp add: deliver_def)
  next
    case (StartedConnect a)
    with assms(2) h1 show ?thesis by (simp add: deliver_def)
  next
    case (ReportFailure type err failed retry)
    with assms(2) have "OnConnectionFailure k type err failed retry ?s1 = Inr s'"
      by (simp add: deliver_def)
    with h1 show ?thesis by (rule outgoing_inv_OnConnectionFailure)
  next
    case (ReportConnected resolved)
    with assms(2) have "OnOutgoingConnected k (m_connection c') resolved ?s1 = Inr s'"
      by (simp add: deliver_def)
    with h1 show ?thesis by (rule outgoing_inv_OnOutgoingConnected)
  qed
qed

lemma outgoing_inv_on_dns:
  assumes "outgoing_inv s" and "on_dns k f s = Inr s'"
    and "\<And>c c' out. f c = Inr (c', out) \<Longrightarrow> kind c' = kind c"
  shows "outgoing_inv s'"
proof -
  from assms(2) obtain c where k: "kind c = DNS" and d: "deliver k (f c) s = Inr s'"
    by (auto simp add: on_dns_def split: option.splits if_splits dest!: liftD)
  from d obtain c' out where r: "f c = Inr (c', out)"
    by (cases "f c") (auto simp add: deliver_def)
  from assms(3) [OF r] k have "IsOutgoing c'" by (simp add: IsOutgoing_def)
  with assms(1) d [unfolded r] show ?thesis by (rule outgoing_inv_deliver)
qed

lemma outgoing_inv_call_Connect:
  assumes "outgoing_inv s" and "call_Connect k env s = Inr s'"
  shows "outgoing_inv s'"
proof (cases "map_find k (m_connecting s)")
  case None
  with assms show ?thesis by (simp add: call_Connect_def CIncomingConn_Connect_def CDirectConnection_Connect_def
          CProxyConn_Connect_def)
next
  case (Some c)
  show ?thesis
  proof (cases "kind c")
    case Direct
    with assms Some show ?thesis by (simp add: call_Connect_def CIncomingConn_Connect_def CDirectConnection_Connect_def
          CProxyConn_Connect_def)
  next
    case DNS
    with assms(2) Some have d: "deliver k (Connect (bev_created env) c) s = Inr s'"
      by (simp add: call_Connect_def CIncomingConn_Connect_def CDirectConnection_Connect_def
          CProxyConn_Connect_def)
    then obtain c' out where r: "Connect (bev_created env) c = Inr (c', out)"
      by (cases "Connect (bev_created env) c") (auto simp add: deliver_def)
    from dns_kind(3) [OF r] DNS have "IsOutgoing c'" by (simp add: IsOutgoing_def)
    with assms(1) d [unfolded r] show ?thesis by (rule outgoing_inv_deliver)
  next
    case Proxy
    with assms Some show ?thesis by (simp add: call_Connect_def CIncomingConn_Connect_def CDirectConnection_Connect_def
          CProxyConn_Connect_def)
  next
    case Incoming
    with assms(2) Some show ?thesis
      by (intro outgoing_inv_erase [OF assms(1), where k = k])
         (auto simp add: call_Connect_def CIncomingConn_Connect_def CDirectConnection_Connect_def
          CProxyConn_Connect_def OnIncomingConnected_def Let_def prim_defs
            split: if_splits)
  qed
qed

lemma outgoing_inv_StartConnection:
  assumes "outgoing_inv s" and "StartConnection conn env s = Inr s'"
  shows "outgoing_inv s'"
proof (cases "IsDNS conn \<and> doResolve conn = RESOLVE_ONLY")
  case True
  with assms(2) show ?thesis
    by (intro outgoing_inv_frame [OF assms(1)])
       (auto simp add: StartConnection_def prim_defs Let_def split: if_splits)
next
  case False
  define ptr where
    "ptr = (if ProxyIsSet conn then new_connection Proxy conn
            else if IsDNS conn then new_connection DNS conn
            else new_connection Direct conn)"
  define s2 where
    "s2 = invoke (m_connection_index s) Call_Connect
            ((snd (next_id s))
               \<lparr>m_connecting := map_emplace (m_connection_index s) ptr (m_connecting s)\<rparr>)"
  have o: "IsOutgoing ptr"
    by (simp add: ptr_def IsOutgoing_def new_connection_def)
  have a2: "outgoing_inv s2"
    by (rule outgoing_inv_emplace [OF assms(1) o, where k = "m_connection_index s"])
       (simp add: s2_def prim_defs)
  have "call_Connect (m_connection_index s) env s2 = Inr s'"
    using assms(2) False
    by (simp add: StartConnection_def Let_def next_id_def s2_def ptr_def)
  with a2 show ?thesis by (rule outgoing_inv_call_Connect)
qed

lemma outgoing_inv_start_each:
  "outgoing_inv s \<Longrightarrow> start_each cs env s = Inr s' \<Longrightarrow> outgoing_inv s'"
proof (induction cs arbitrary: s)
  case Nil
  then show ?case by simp
next
  case (Cons c cs)
  show ?case
  proof (cases "IsSet c")
    case True
    with Cons.prems(2) obtain s1 where a: "StartConnection c env s = Inr s1"
      and b: "start_each cs env s1 = Inr s'"
      by (auto split: sum.splits)
    from outgoing_inv_StartConnection [OF Cons.prems(1) a] b show ?thesis
      by (rule Cons.IH)
  next
    case False
    with Cons.prems(2) have "start_each cs env s = Inr s'" by simp
    with Cons.prems(1) show ?thesis by (rule Cons.IH)
  qed
qed

lemma outgoing_inv_RequestOutgoingInt:
  assumes "outgoing_inv s" and "RequestOutgoingInt f env s = Inr s'"
  shows "outgoing_inv s'"
proof (cases "need_outgoing s > 0")
  case True
  have "outgoing_inv (emit (CB_OnNeedOutgoingConnections (need_outgoing s)) s)"
    using assms(1) by (rule outgoing_inv_frame) (simp add: emit_def)
  moreover from assms(2) True
  have "start_each (take (min (length (f (need_outgoing s))) (unat (need_outgoing s)))
                      (f (need_outgoing s))) env
          (emit (CB_OnNeedOutgoingConnections (need_outgoing s)) s) = Inr s'"
    by (simp add: RequestOutgoingInt_def Let_def)
  ultimately show ?thesis by (rule outgoing_inv_start_each)
next
  case False
  with assms show ?thesis by (simp add: RequestOutgoingInt_def Let_def)
qed

text \<open>
  An accepted socket is emplaced and its \<open>Connect\<close> takes it out of \<open>m_connecting\<close>
  again; when the id is a key already, nothing is emplaced and \<open>Connect\<close> runs on the
  object that is there.
\<close>

lemma outgoing_inv_OnIncomingConnection:
  assumes "outgoing_inv s" and "OnIncomingConnection bind address env s = Inr s'"
  shows "outgoing_inv s'"
proof (cases "map_find (m_connection_index s) (m_connecting s)")
  case None
  let ?k = "m_connection_index s"
  let ?ptr = "CIncomingConn bind address"
  from assms(2) have "m_connecting s' = map_erase ?k (map_emplace ?k ?ptr (m_connecting s))"
    by (auto simp add: OnIncomingConnection_fresh [OF None] OnIncomingConnected_def Let_def
          prim_defs map_find_emplace None split: if_splits)
  then have "set (m_connecting s') \<subseteq> set (m_connecting s)"
    by (auto simp add: set_map_erase dest!: in_map_emplaceD)
  with assms(1) show ?thesis by (rule outgoing_inv_sub)
next
  case (Some c)
  define s2 where
    "s2 = invoke (m_connection_index s) Call_Connect
            ((snd (next_id s))
               \<lparr>m_connecting :=
                  map_emplace (m_connection_index s)
                    (CIncomingConn bind address) (m_connecting s)\<rparr>)"
  have a2: "outgoing_inv s2"
    by (rule outgoing_inv_frame [OF assms(1)])
       (simp add: s2_def prim_defs map_emplace_def Some)
  have "call_Connect (m_connection_index s) env s2 = Inr s'"
    using assms(2) by (simp add: OnIncomingConnection_def CIncomingConn_def Let_def next_id_def s2_def)
  with a2 show ?thesis by (rule outgoing_inv_call_Connect)
qed

lemma outgoing_inv_ShutdownInt:
  "outgoing_inv s \<Longrightarrow> ShutdownInt s = Inr s' \<Longrightarrow> outgoing_inv s'"
  by (auto simp add: ShutdownInt_def outgoing_inv_def Let_def split: if_splits)

lemma outgoing_inv_dispatch:
  assumes "outgoing_inv s" and "dispatch e s = Inr s'"
  shows "outgoing_inv s'"
proof (cases e)
  case (Ev_RequestOutgoing conns env)
  with assms show ?thesis by (auto dest!: liftD elim: outgoing_inv_RequestOutgoingInt)
next
  case Ev_Shutdown
  with assms show ?thesis by (auto dest!: liftD elim: outgoing_inv_ShutdownInt)
next
  case (Ev_Accept b address env)
  with assms show ?thesis
    by (auto split: option.splits dest!: liftD elim: outgoing_inv_OnIncomingConnection)
next
  case (Ev_ListenFailure b)
  with assms show ?thesis
    by (auto simp add: OnListenFailure_def emit_def Let_def
          split: option.splits elim!: outgoing_inv_frame)
next
  case (Ev_Connected k resolved)
  with assms show ?thesis
    by (auto split: option.splits if_splits dest!: liftD
          elim: outgoing_inv_OnOutgoingConnected)
next
  case (Ev_Failed k type err failed retry)
  with assms show ?thesis
    by (auto split: option.splits if_splits dest!: liftD
          elim: outgoing_inv_OnConnectionFailure)
next
  case (Ev_Disconnected k reconnect)
  from assms(2) obtain c where f: "map_find k (m_connected s) = Some c"
    and r: "OnDisconnected k (reconnect \<and> IsOutgoing c) s = Inr s'"
    by (auto simp add: Ev_Disconnected ConnectionBase_OnDisconnected_def
          split: option.splits dest!: liftD)
  have "reconnect \<and> IsOutgoing c \<longrightarrow> IsOutgoing c" by simp
  with assms(1) f show ?thesis using r by (rule outgoing_inv_OnDisconnected)
next
  case (Ev_Reconnect k env)
  with assms show ?thesis
    by (auto split: option.splits dest!: liftD elim: outgoing_inv_call_Connect)
next
  case (Ev_DnsResolveFailure k err)
  with assms(2) have "on_dns k (OnResolveFailure_dns err) s = Inr s'" by simp
  with assms(1) show ?thesis by (rule outgoing_inv_on_dns) (rule dns_kind(4))
next
  case (Ev_DnsResolveSuccess k response created)
  with assms(2) have "on_dns k (OnResolveSuccess response created) s = Inr s'" by simp
  with assms(1) show ?thesis by (rule outgoing_inv_on_dns) (rule dns_kind(5))
next
  case (Ev_DnsConnectFailure k event)
  with assms(2) have "on_dns k (OnConnectFailure event) s = Inr s'" by simp
  with assms(1) show ?thesis by (rule outgoing_inv_on_dns) (rule dns_kind(7))
next
  case (Ev_DnsConnectSuccess k)
  with assms(2) have "on_dns k OnConnectSuccess s = Inr s'" by simp
  with assms(1) show ?thesis by (rule outgoing_inv_on_dns) (rule dns_kind(6))
next
  case (Ev_ResolveComplete k resolved)
  with assms show ?thesis
    by (auto simp add: OnResolveComplete_def emit_def Let_def
          split: option.splits elim!: outgoing_inv_frame)
next
  case (Ev_ResolveFailure k err retry)
  with assms show ?thesis
    by (auto split: option.splits dest!: liftD elim: outgoing_inv_OnResolveFailure)
next
  case (Ev_ReceiveMessages k msgs totalsize keep)
  with assms show ?thesis
    by (auto simp add: OnReceiveMessages_def emit_def elim!: outgoing_inv_frame)
next
  case (Ev_WriteBufferFull k bufsize)
  with assms show ?thesis
    by (auto simp add: OnWriteBufferFull_def emit_def elim!: outgoing_inv_frame)
next
  case (Ev_WriteBufferReady k bufsize)
  with assms show ?thesis
    by (auto simp add: OnWriteBufferReady_def emit_def elim!: outgoing_inv_frame)
qed

lemma outgoing_inv_event_base_loop:
  "outgoing_inv s \<Longrightarrow> event_base_loop es s = Inr s' \<Longrightarrow> outgoing_inv s'"
proof (induction es arbitrary: s)
  case Nil
  then show ?case by simp
next
  case (Cons e es)
  then show ?case
    by (auto split: sum.splits if_splits dest: outgoing_inv_dispatch)
qed

lemma outgoing_inv_PumpEvents:
  assumes "outgoing_inv s" and "PumpEvents block ready s = Inr (ret, s')"
  shows "outgoing_inv s'"
proof -
  have "outgoing_inv (emit CB_OnShutdown (s1\<lparr>m_event_base := False\<rparr>))"
    if "outgoing_inv s1" for s1
    using that by (rule outgoing_inv_frame) (simp add: emit_def)
  with assms show ?thesis
    by (auto simp add: PumpEvents_def split: if_splits sum.splits
          dest: outgoing_inv_event_base_loop)
qed

lemma outgoing_inv_step:
  assumes "outgoing_inv s" and "step c s = Inr s'"
  shows "outgoing_inv s'"
proof (cases c)
  case (Cmd_Start limit)
  with assms show ?thesis
    by (auto simp add: Start_def Let_def prim_defs
          split: if_splits dest!: liftD elim!: outgoing_inv_frame)
next
  case (Cmd_PumpEvents block ready)
  with assms show ?thesis
    by (auto split: sum.splits dest: outgoing_inv_PumpEvents)
next
  case Cmd_Shutdown
  with assms show ?thesis
    by (auto simp add: Shutdown_def elim!: outgoing_inv_frame)
next
  case (Cmd_Bind conn ret)
  with assms show ?thesis
    by (cases ret) (auto simp add: Bind_def prim_defs Let_def elim!: outgoing_inv_frame)
next
  case (Cmd_StartConnection conn env)
  with assms show ?thesis by (auto dest!: liftD elim: outgoing_inv_StartConnection)
next
  case (Cmd_CloseConnection k immediately)
  with assms show ?thesis
    by (cases immediately)
       (auto simp add: CloseConnection_def invoke_def
          split: option.splits elim!: outgoing_inv_frame)
next
  case (Cmd_PauseRecv k)
  with assms show ?thesis
    by (auto simp add: PauseRecv_def invoke_def split: option.splits elim!: outgoing_inv_frame)
next
  case (Cmd_UnpauseRecv k)
  with assms show ?thesis
    by (auto simp add: UnpauseRecv_def invoke_def split: option.splits elim!: outgoing_inv_frame)
next
  case (Cmd_Send k data written)
  with assms show ?thesis
    by (auto simp add: Send_def invoke_def split: option.splits elim!: outgoing_inv_frame)
next
  case (Cmd_SetRateLimit k limit)
  with assms show ?thesis
    by (auto simp add: SetRateLimit_def invoke_def split: option.splits elim!: outgoing_inv_frame)
qed

lemma outgoing_inv_run: "outgoing_inv s \<Longrightarrow> run cs s = Inr s' \<Longrightarrow> outgoing_inv s'"
  by (induction cs arbitrary: s) (auto split: sum.splits dest: outgoing_inv_step)

lemma outgoing_inv_init: "outgoing_inv CConnectionHandlerInt"
  by (simp add: outgoing_inv_def CConnectionHandlerInt_def)

lemma count_outgoing_all:
  "list_all (\<lambda>p. IsOutgoing (snd p)) m \<Longrightarrow> count_outgoing m = length m"
  by (induction m) (simp_all add: count_outgoing_def)

text \<open>
  In every run the entries of \<open>m_connecting\<close> are outgoing connections when a refill
  cycle starts. Where the limit less the connections established and in progress is
  not negative, the cycle asks the embedder for the least of that number and 8: for
  nothing when it is zero (the handler is unchanged), and otherwise it starts at most
  that many of the destinations returned.
\<close>

lemma refill_request:
  assumes "run cs CConnectionHandlerInt = Inr s"
    and "0 \<le> sint (m_outgoing_conn_count s)"
    and "q = sint (m_outgoing_conn_limit s) - sint (m_outgoing_conn_count s)
               - int (count_outgoing (m_connecting s))"
    and "0 \<le> q"
  shows "unat (need_outgoing s) = nat (min 8 q)
       \<and> (q = 0 \<longrightarrow> RequestOutgoingInt embedder env s = Inr s)
       \<and> (0 < q \<longrightarrow> RequestOutgoingInt embedder env s =
             start_each (take (nat (min 8 q)) (embedder (need_outgoing s))) env
               (emit (CB_OnNeedOutgoingConnections (need_outgoing s)) s))"
proof -
  have "outgoing_inv s"
    using outgoing_inv_init assms(1) by (rule outgoing_inv_run)
  then have "count_outgoing (m_connecting s) = length (m_connecting s)"
    by (simp add: outgoing_inv_def count_outgoing_all)
  with assms(3)
  have q: "q = sint (m_outgoing_conn_limit s) - sint (m_outgoing_conn_count s)
               - int (length (m_connecting s))"
    by simp
  have n: "unat (need_outgoing s) = nat (min 8 q)"
    using assms(2) q assms(4) by (rule need_outgoing_nonneg)
  have z: "need_outgoing s > 0 \<longleftrightarrow> 0 < q"
    using n assms(4)
    by (auto simp add: word_greater_zero_iff unat_eq_0 [symmetric] min_def split: if_splits)
  show ?thesis
    using n z assms(4) by (auto simp add: RequestOutgoingInt_def Let_def take_min_length)
qed

lemma refill_request_example:
  "m_outgoing_conn_limit (state_after room_example) = 8
   \<and> m_outgoing_conn_count (state_after room_example) = 0
   \<and> m_connecting (state_after room_example) = [(0, new_connection Direct direct_dest)]
   \<and> need_outgoing (state_after room_example) = 7"
  by (simp add: room_example_def direct_dest_def handler_defs need_outgoing_def std_min_def
        g_max_simultaneous_connecting_def)

text \<open>
  C1. The refill cycle converts
  \<open>min(8, m_outgoing_conn_limit - m_outgoing_conn_count - m_connecting.size())\<close> to
  \<open>size_t\<close> before it tests \<open>need > 0\<close>, so a negative difference passes the test as a
  number above \<open>2 ^ 63\<close>. With limit 0 and one direct connection in progress, the only
  entry of \<open>m_connecting\<close> and an outgoing one, the difference is \<open>-1\<close>: the refill cycle
  asks \<open>OnNeedOutgoingConnections\<close> for \<open>2 ^ 64 - 1\<close> destinations and starts the one
  that the embedder returns.
\<close>

theorem refill_negative_difference:
  "run overfull_example CConnectionHandlerInt = Inr (state_after overfull_example)
   \<and> m_outgoing_conn_limit (state_after overfull_example) = 0
   \<and> m_outgoing_conn_count (state_after overfull_example) = 0
   \<and> m_connecting (state_after overfull_example) = [(0, new_connection Direct direct_dest)]
   \<and> count_outgoing (m_connecting (state_after overfull_example)) = 1
   \<and> min 8 (sint (m_outgoing_conn_limit (state_after overfull_example))
             - sint (m_outgoing_conn_count (state_after overfull_example))
             - int (count_outgoing (m_connecting (state_after overfull_example)))) = - 1
   \<and> need_outgoing (state_after overfull_example) = 18446744073709551615
   \<and> run overfull_refill_example CConnectionHandlerInt
       = Inr (state_after overfull_refill_example)
   \<and> callbacks_of (history (state_after overfull_refill_example))
       = [CB_OnStartup, CB_OnNeedOutgoingConnections 18446744073709551615]
   \<and> m_connecting (state_after overfull_refill_example)
       = [(0, new_connection Direct direct_dest), (1, new_connection Direct direct_dest)]"
proof -
  have p: "(0::64 word) < - 1" by (simp add: word_greater_zero_iff)
  have u: "min (Suc 0) (unat (- 1 :: 64 word)) = Suc 0"
    by (simp add: unsigned_minus_1_eq_mask mask_eq_exp_minus_1)
  have o: "count_outgoing [(0, new_connection Direct direct_dest)] = 1"
    by (simp add: count_outgoing_def IsOutgoing_def new_connection_def)
  have a: "run overfull_example CConnectionHandlerInt = Inr (state_after overfull_example)
           \<and> m_outgoing_conn_limit (state_after overfull_example) = 0
           \<and> m_outgoing_conn_count (state_after overfull_example) = 0
           \<and> m_connecting (state_after overfull_example)
               = [(0, new_connection Direct direct_dest)]
           \<and> need_outgoing (state_after overfull_example) = 18446744073709551615"
    by (simp add: overfull_example_def direct_dest_def handler_defs
          need_outgoing_def std_min_def g_max_simultaneous_connecting_def)
  have b: "run overfull_refill_example CConnectionHandlerInt
             = Inr (state_after overfull_refill_example)
           \<and> callbacks_of (history (state_after overfull_refill_example))
               = [CB_OnStartup, CB_OnNeedOutgoingConnections 18446744073709551615]
           \<and> m_connecting (state_after overfull_refill_example)
               = [(0, new_connection Direct direct_dest), (1, new_connection Direct direct_dest)]"
    by (simp add: overfull_refill_example_def overfull_example_def direct_dest_def handler_defs
          need_outgoing_def std_min_def g_max_simultaneous_connecting_def
          RequestOutgoingInt_def Let_def p u)
  from a b o show ?thesis by simp
qed

section \<open>Shutdown\<close>

lemma disconnect_all_counts:
  "m_outgoing_conn_count (disconnect_all m s)
     = m_outgoing_conn_count s - word_of_nat (count_outgoing m)
   \<and> m_incoming_conn_count (disconnect_all m s)
       = m_incoming_conn_count s - word_of_nat (count_incoming m)"
  by (induction m s rule: disconnect_all.induct)
     (simp_all add: emit_def count_outgoing_def count_incoming_def)

lemma ShutdownInt_sequence:
  assumes "\<not> m_shutdown s"
  shows "ShutdownInt s =
           (if m_outgoing_conn_count s = word_of_nat (count_outgoing (m_connected s))
               \<and> m_incoming_conn_count s = word_of_nat (count_incoming (m_connected s))
            then Inr ((fail_connecting (m_connecting s)
                         (disconnect_all (m_connected s)
                            (s\<lparr>m_connected := [], m_binds := [], m_shutdown := True\<rparr>)))
                       \<lparr>m_dns_resolves := [], m_dns_base := False,
                        m_request_event := False, m_shutdown_event := False\<rparr>)
            else Inl AssertionFailed)"
  using assms
  by (auto simp add: ShutdownInt_def Let_def fail_connecting_frame disconnect_all_frame
        disconnect_all_counts)

text \<open>
  In a run that allocates fewer than \<open>2 ^ 32\<close> ids the counters agree with
  \<open>m_connected\<close>, so the shutdown sequence passes its final assertions.
\<close>

lemma shutdown_completes:
  assumes "run cs CConnectionHandlerInt = Inr s" and "ids_demanded cs < 2 ^ 32"
    and "\<not> m_shutdown s"
  shows "\<exists>s'. ShutdownInt s = Inr s'"
proof -
  have b: "unat (m_connection_index CConnectionHandlerInt) + ids_demanded cs < 2 ^ 32"
    using assms(2) by (simp add: CConnectionHandlerInt_def)
  have "handler_inv s"
    using handler_inv_init b assms(1) by (rule handler_inv_run)
  then have "m_outgoing_conn_count s = word_of_nat (count_outgoing (m_connected s))"
    "m_incoming_conn_count s = word_of_nat (count_incoming (m_connected s))"
    by (simp_all add: handler_inv_def counts_ok_def)
  then show ?thesis by (simp add: ShutdownInt_sequence [OF assms(3)])
qed

text \<open>
  C5. When \<open>ShutdownInt\<close> runs the shutdown sequence (the handler is not shut down
  already) and returns, its final assertions passed, then \<open>m_connected\<close>,
  \<open>m_connecting\<close>, \<open>m_binds\<close> and \<open>m_dns_resolves\<close> are empty and both counters are
  zero, whatever the state it started from. On a live reactor \<open>PumpEvents\<close> then returns
  false and delivers \<open>OnShutdown\<close>, which observes that state. The sequence returns,
  rather than fail an assertion, exactly when the two counters agree with \<open>m_connected\<close>.
\<close>

theorem shutdown_leaves_nothing:
  assumes "\<not> m_shutdown s"
  shows "((\<exists>s'. ShutdownInt s = Inr s') \<longleftrightarrow>
            m_outgoing_conn_count s = word_of_nat (count_outgoing (m_connected s))
            \<and> m_incoming_conn_count s = word_of_nat (count_incoming (m_connected s)))
       \<and> (\<forall>s'. ShutdownInt s = Inr s' \<longrightarrow>
            m_shutdown s'
            \<and> m_connected s' = [] \<and> m_connecting s' = [] \<and> m_binds s' = []
            \<and> m_dns_resolves s' = []
            \<and> m_outgoing_conn_count s' = 0 \<and> m_incoming_conn_count s' = 0
            \<and> quiescent (observe s')
            \<and> (m_event_base s \<longrightarrow>
                 PumpEvents block [Ev_Shutdown] s
                   = Inr (False, emit CB_OnShutdown (s'\<lparr>m_event_base := False\<rparr>)))
            \<and> last (history (emit CB_OnShutdown (s'\<lparr>m_event_base := False\<rparr>)))
                 = Callback CB_OnShutdown (observe s'))"
proof -
  let ?s1 = "s\<lparr>m_connected := [], m_binds := [], m_shutdown := True\<rparr>"
  let ?s2 = "disconnect_all (m_connected s) ?s1"
  let ?s3 = "fail_connecting (m_connecting ?s2) ?s2"
  let ?s4 = "?s3\<lparr>m_dns_resolves := [], m_dns_base := False,
                  m_request_event := False, m_shutdown_event := False\<rparr>"
  have c: "(\<exists>s'. ShutdownInt s = Inr s') \<longleftrightarrow>
             m_outgoing_conn_count s = word_of_nat (count_outgoing (m_connected s))
             \<and> m_incoming_conn_count s = word_of_nat (count_incoming (m_connected s))"
    by (simp add: ShutdownInt_sequence [OF assms])
  have e: "m_connecting ?s4 = []" "m_connected ?s4 = []" "m_binds ?s4 = []"
    "m_dns_resolves ?s4 = []" "m_shutdown ?s4"
    by (simp_all add: fail_connecting_frame disconnect_all_frame)
  have post: "m_shutdown s'
            \<and> m_connected s' = [] \<and> m_connecting s' = [] \<and> m_binds s' = []
            \<and> m_dns_resolves s' = []
            \<and> m_outgoing_conn_count s' = 0 \<and> m_incoming_conn_count s' = 0
            \<and> quiescent (observe s')
            \<and> (m_event_base s \<longrightarrow>
                 PumpEvents block [Ev_Shutdown] s
                   = Inr (False, emit CB_OnShutdown (s'\<lparr>m_event_base := False\<rparr>)))
            \<and> last (history (emit CB_OnShutdown (s'\<lparr>m_event_base := False\<rparr>)))
                 = Callback CB_OnShutdown (observe s')"
    if r: "ShutdownInt s = Inr s'" for s'
  proof -
    from assms r have eq: "s' = ?s4"
      and z: "m_outgoing_conn_count ?s4 = 0" "m_incoming_conn_count ?s4 = 0"
      by (auto simp add: ShutdownInt_def Let_def split: if_splits)
    have p: "PumpEvents block [Ev_Shutdown] s
               = Inr (False, emit CB_OnShutdown (s'\<lparr>m_event_base := False\<rparr>))"
      if "m_event_base s"
      using that assms r e(5) by (simp add: PumpEvents_def lift_def eq)
    have l: "last (history (emit CB_OnShutdown (s'\<lparr>m_event_base := False\<rparr>)))
               = Callback CB_OnShutdown (observe s')"
      by (simp add: emit_def observe_def)
    have q: "quiescent (observe s')"
      using z e by (simp add: quiescent_def observe_def eq)
    from p l q z e show ?thesis by (simp add: eq)
  qed
  from c post show ?thesis by blast
qed

theorem shutdown_leaves_nothing_witness:
  "\<not> m_shutdown (state_after connect_example)
   \<and> m_event_base (state_after connect_example)
   \<and> m_connected (state_after connect_example) = [(0, new_connection Direct direct_dest)]
   \<and> m_outgoing_conn_count (state_after connect_example) = 1
   \<and> (\<exists>s'. ShutdownInt (state_after connect_example) = Inr s'
          \<and> m_connected s' = [] \<and> m_connecting s' = [] \<and> m_binds s' = []
          \<and> m_dns_resolves s' = []
          \<and> m_outgoing_conn_count s' = 0 \<and> m_incoming_conn_count s' = 0
          \<and> PumpEvents False [Ev_Shutdown] (state_after connect_example)
              = Inr (False, emit CB_OnShutdown (s'\<lparr>m_event_base := False\<rparr>)))"
proof -
  have l: "\<not> m_shutdown (state_after connect_example)"
    "m_event_base (state_after connect_example)"
    by (simp_all add: connect_example_def direct_dest_def handler_defs)
  have c: "m_outgoing_conn_count (state_after connect_example)
             = word_of_nat (count_outgoing (m_connected (state_after connect_example)))
           \<and> m_incoming_conn_count (state_after connect_example)
             = word_of_nat (count_incoming (m_connected (state_after connect_example)))"
    by (simp add: connected_connect_example counters_connect_example count_outgoing_def
          count_incoming_def IsOutgoing_def new_connection_def)
  from shutdown_leaves_nothing [OF l(1), of False] c
  obtain s' where r: "ShutdownInt (state_after connect_example) = Inr s'" by blast
  from shutdown_leaves_nothing [OF l(1), of False] r l
    connected_connect_example counters_connect_example
  show ?thesis by simp
qed


end
